theory Spec2Isabelle
  imports Main
begin

section \<open>The order list: \<^verbatim>\<open>std::forward_list\<close> with stable node addresses\<close>

text \<open>
  Both containers of the repository (\<^verbatim>\<open>nonstd::fifo_set\<close> in \<^verbatim>\<open>fifo-set.hpp\<close> and
  \<^verbatim>\<open>nonstd::fifo_map\<close> in \<^verbatim>\<open>fifo-map.hpp\<close>) hold three members: the hash index
  \<^verbatim>\<open>map\<close>, the singly linked \<^verbatim>\<open>list\<close> and the iterator \<^verbatim>\<open>list_back\<close>.

  A forward list is modelled as the sequence of its nodes, each node carrying the address it
  was allocated at. A list iterator is either the before-begin position of the list object
  living at a given address, a node, or the past-the-end iterator. Whatever C++ leaves
  undefined (stepping or dereferencing an iterator that is not a position of this list) is an
  error value of the model.
\<close>

type_synonym addr = nat

datatype pos = BeforeBegin addr | Node addr | End

datatype error = UndefinedBehaviour | OutOfRange | AssertionFailed

type_synonym 'e forward_list = "(addr \<times> 'e) list"

definition before_begin :: "addr \<Rightarrow> pos" where
  "before_begin this = BeforeBegin this"

definition list_begin :: "'e forward_list \<Rightarrow> pos" where
  "list_begin l = (case l of [] \<Rightarrow> End | (a, v) # r \<Rightarrow> Node a)"

fun after_node :: "'e forward_list \<Rightarrow> addr \<Rightarrow> pos option" where
  "after_node [] a = None"
| "after_node ((b, v) # l) a = (if b = a then Some (list_begin l) else after_node l a)"

text \<open>\<^verbatim>\<open>++it\<close>\<close>

definition incr :: "addr \<Rightarrow> 'e forward_list \<Rightarrow> pos \<Rightarrow> error + pos" where
  "incr this l it =
     (case it of
        BeforeBegin t \<Rightarrow> if t = this then Inr (list_begin l) else Inl UndefinedBehaviour
      | Node a \<Rightarrow> (case after_node l a of None \<Rightarrow> Inl UndefinedBehaviour | Some q \<Rightarrow> Inr q)
      | End \<Rightarrow> Inl UndefinedBehaviour)"

text \<open>\<^verbatim>\<open>*it\<close>\<close>

definition deref :: "'e forward_list \<Rightarrow> pos \<Rightarrow> error + 'e" where
  "deref l it =
     (case it of
        Node a \<Rightarrow> (case map_of l a of None \<Rightarrow> Inl UndefinedBehaviour | Some v \<Rightarrow> Inr v)
      | BeforeBegin t \<Rightarrow> Inl UndefinedBehaviour
      | End \<Rightarrow> Inl UndefinedBehaviour)"

text \<open>\<^verbatim>\<open>list.front()\<close>\<close>

definition front :: "'e forward_list \<Rightarrow> error + 'e" where
  "front l = (case l of [] \<Rightarrow> Inl UndefinedBehaviour | (a, v) # r \<Rightarrow> Inr v)"

fun insert_after_node :: "'e forward_list \<Rightarrow> addr \<Rightarrow> addr \<times> 'e \<Rightarrow> 'e forward_list option" where
  "insert_after_node [] a n = None"
| "insert_after_node ((b, v) # l) a n =
     (if b = a then Some ((b, v) # n # l)
      else map_option ((#) (b, v)) (insert_after_node l a n))"

text \<open>
  \<^verbatim>\<open>list.insert_after(it, value)\<close>: the new node is allocated at address \<open>n\<close>; the result is
  the new list and the iterator to the new node.
\<close>

definition insert_after ::
  "addr \<Rightarrow> 'e forward_list \<Rightarrow> pos \<Rightarrow> addr \<Rightarrow> 'e \<Rightarrow> error + ('e forward_list \<times> pos)" where
  "insert_after this l it n v =
     (case it of
        BeforeBegin t \<Rightarrow>
          if t = this then Inr ((n, v) # l, Node n) else Inl UndefinedBehaviour
      | Node a \<Rightarrow>
          (case insert_after_node l a (n, v) of
             None \<Rightarrow> Inl UndefinedBehaviour
           | Some l' \<Rightarrow> Inr (l', Node n))
      | End \<Rightarrow> Inl UndefinedBehaviour)"

fun erase_after_node :: "'e forward_list \<Rightarrow> addr \<Rightarrow> ('e forward_list \<times> pos) option" where
  "erase_after_node [] a = None"
| "erase_after_node [(b, v)] a = None"
| "erase_after_node ((b, v) # c # l) a =
     (if b = a then Some ((b, v) # l, list_begin l)
      else map_option (\<lambda>(l', q). ((b, v) # l', q)) (erase_after_node (c # l) a))"

text \<open>
  \<^verbatim>\<open>list.erase_after(it)\<close>: removes the node following \<open>it\<close> and returns the iterator to the
  node that now follows \<open>it\<close>, or the end iterator.
\<close>

definition erase_after ::
  "addr \<Rightarrow> 'e forward_list \<Rightarrow> pos \<Rightarrow> error + ('e forward_list \<times> pos)" where
  "erase_after this l it =
     (case it of
        BeforeBegin t \<Rightarrow>
          if t = this then (case l of [] \<Rightarrow> Inl UndefinedBehaviour | x # r \<Rightarrow> Inr (r, list_begin r))
          else Inl UndefinedBehaviour
      | Node a \<Rightarrow>
          (case erase_after_node l a of None \<Rightarrow> Inl UndefinedBehaviour | Some r \<Rightarrow> Inr r)
      | End \<Rightarrow> Inl UndefinedBehaviour)"

section \<open>The predecessor index: \<^verbatim>\<open>std::unordered_map\<close>\<close>

text \<open>
  The index is keyed by a reference to the identity stored in a node and compares by the
  identity's equality; it is modelled as a partial map from identities to list iterators.
\<close>

text \<open>\<^verbatim>\<open>map.emplace(k, it)\<close>: inserts unless the key is present.\<close>

definition map_emplace :: "('k \<rightharpoonup> pos) \<Rightarrow> 'k \<Rightarrow> pos \<Rightarrow> ('k \<rightharpoonup> pos)" where
  "map_emplace m k it = (case m k of None \<Rightarrow> m(k \<mapsto> it) | Some old \<Rightarrow> m)"

text \<open>\<^verbatim>\<open>map.at(k) = it\<close>: throws \<^verbatim>\<open>std::out_of_range\<close> when the key is absent.\<close>

definition map_at_assign :: "('k \<rightharpoonup> pos) \<Rightarrow> 'k \<Rightarrow> pos \<Rightarrow> error + ('k \<rightharpoonup> pos)" where
  "map_at_assign m k it = (case m k of None \<Rightarrow> Inl OutOfRange | Some old \<Rightarrow> Inr (m(k \<mapsto> it)))"

section \<open>The container engine\<close>

text \<open>
  The two headers contain the same engine; they differ in the element type (a bare value, or
  a pair of key and mapped value) and in the identity taken from an element (the value
  itself, or \<^verbatim>\<open>.first\<close>). The engine is written once over the parameter \<open>key_of\<close>.
  \<open>this\<close> is the address of the container object, which fixes the identity of its
  before-begin position. Operations that can allocate a node take and return the next free
  heap address \<open>h\<close>: a new node is allocated at \<open>h\<close>, and the address of an erased node is
  not handed out again.
\<close>

record ('k, 'e) fifo =
  map_f :: "'k \<rightharpoonup> pos"
  list_f :: "'e forward_list"
  list_back :: pos

text \<open>Default construction: \<^verbatim>\<open>list_back{list.before_begin()}\<close>.\<close>

definition init :: "addr \<Rightarrow> ('k, 'e) fifo" where
  "init this = \<lparr>map_f = Map.empty, list_f = [], list_back = before_begin this\<rparr>"

definition size_f :: "('k, 'e) fifo \<Rightarrow> nat" where
  "size_f c = card (dom (map_f c))"

definition empty_f :: "('k, 'e) fifo \<Rightarrow> bool" where
  "empty_f c = (dom (map_f c) = {})"

definition count_f :: "('k, 'e) fifo \<Rightarrow> 'k \<Rightarrow> nat" where
  "count_f c k = (case map_f c k of None \<Rightarrow> 0 | Some p \<Rightarrow> 1)"

definition find_f :: "addr \<Rightarrow> ('k, 'e) fifo \<Rightarrow> 'k \<Rightarrow> error + pos" where
  "find_f this c k =
     (case map_f c k of
        None \<Rightarrow> Inr End
      | Some list_before_item \<Rightarrow> incr this (list_f c) list_before_item)"

text \<open>
  \<^verbatim>\<open>emplace_back\<close>. The element \<open>v\<close> is the \<^verbatim>\<open>value\<close> built from the arguments. The key
  of the new index entry, \<^verbatim>\<open>*list_back\<close>, is the identity of the node just inserted.
\<close>

definition emplace_back ::
  "('e \<Rightarrow> 'k) \<Rightarrow> addr \<Rightarrow> 'e \<Rightarrow> ('k, 'e) fifo \<times> addr
     \<Rightarrow> error + ((pos \<times> bool) \<times> ('k, 'e) fifo \<times> addr)" where
  "emplace_back key_of this v = (\<lambda>(c, h).
     case map_f c (key_of v) of
       None \<Rightarrow>
         (let list_before_item = list_back c in
          case insert_after this (list_f c) (list_back c) h v of
            Inl e \<Rightarrow> Inl e
          | Inr (l', new_back) \<Rightarrow>
              Inr ((new_back, True),
                   \<lparr>map_f = map_emplace (map_f c) (key_of v) list_before_item,
                    list_f = l', list_back = new_back\<rparr>,
                   Suc h))
     | Some list_before_item \<Rightarrow>
         (case incr this (list_f c) list_before_item of
            Inl e \<Rightarrow> Inl e
          | Inr list_it \<Rightarrow> Inr ((list_it, False), c, h)))"

text \<open>\<^verbatim>\<open>emplace\<close> forwards to \<^verbatim>\<open>emplace_back\<close>.\<close>

definition emplace ::
  "('e \<Rightarrow> 'k) \<Rightarrow> addr \<Rightarrow> 'e \<Rightarrow> ('k, 'e) fifo \<times> addr
     \<Rightarrow> error + ((pos \<times> bool) \<times> ('k, 'e) fifo \<times> addr)" where
  "emplace key_of this v s = emplace_back key_of this v s"

text \<open>
  \<^verbatim>\<open>emplace_front\<close> (only in \<^verbatim>\<open>fifo-set.hpp\<close>). The reference \<^verbatim>\<open>list_it\<close> is bound to
  \<^verbatim>\<open>list_back\<close> when the container is empty and to the index entry of the first element
  otherwise; the iterator of the new node is written through it.
\<close>

definition emplace_front ::
  "('e \<Rightarrow> 'k) \<Rightarrow> addr \<Rightarrow> 'e \<Rightarrow> ('k, 'e) fifo \<times> addr
     \<Rightarrow> error + ((pos \<times> bool) \<times> ('k, 'e) fifo \<times> addr)" where
  "emplace_front key_of this v = (\<lambda>(c, h).
     case map_f c (key_of v) of
       None \<Rightarrow>
         if empty_f c then
           (let list_before_item = list_back c in
            case insert_after this (list_f c) list_before_item h v of
              Inl e \<Rightarrow> Inl e
            | Inr (l', new_it) \<Rightarrow>
                Inr ((new_it, True),
                     \<lparr>map_f = map_emplace (map_f c) (key_of v) list_before_item,
                      list_f = l', list_back = new_it\<rparr>,
                     Suc h))
         else
           (case front (list_f c) of
              Inl e \<Rightarrow> Inl e
            | Inr first \<Rightarrow>
                (case map_f c (key_of first) of
                   None \<Rightarrow> Inl OutOfRange
                 | Some list_before_item \<Rightarrow>
                     (case insert_after this (list_f c) list_before_item h v of
                        Inl e \<Rightarrow> Inl e
                      | Inr (l', new_it) \<Rightarrow>
                          Inr ((new_it, True),
                               \<lparr>map_f = map_emplace ((map_f c)(key_of first \<mapsto> new_it))
                                          (key_of v) list_before_item,
                                list_f = l', list_back = list_back c\<rparr>,
                               Suc h))))
     | Some list_before_item \<Rightarrow>
         (case incr this (list_f c) list_before_item of
            Inl e \<Rightarrow> Inl e
          | Inr list_it \<Rightarrow> Inr ((list_it, False), c, h)))"

text \<open>
  The part shared by both \<^verbatim>\<open>erase\<close> overloads, from \<^verbatim>\<open>map.erase(map_it)\<close> on: \<open>k\<close> is the
  key of the index entry found and \<open>list_before_item\<close> its value.
\<close>

definition erase_entry ::
  "('e \<Rightarrow> 'k) \<Rightarrow> addr \<Rightarrow> 'k \<Rightarrow> pos \<Rightarrow> ('k, 'e) fifo \<Rightarrow> error + ('k, 'e) fifo" where
  "erase_entry key_of this k list_before_item c =
     (let m = (map_f c)(k := None) in
      case erase_after this (list_f c) list_before_item of
        Inl e \<Rightarrow> Inl e
      | Inr (l', list_it) \<Rightarrow>
          if list_it = End then
            Inr \<lparr>map_f = m, list_f = l', list_back = list_before_item\<rparr>
          else
            (case deref l' list_it of
               Inl e \<Rightarrow> Inl e
             | Inr w \<Rightarrow>
                 (case map_at_assign m (key_of w) list_before_item of
                    Inl e \<Rightarrow> Inl e
                  | Inr m' \<Rightarrow> Inr \<lparr>map_f = m', list_f = l', list_back = list_back c\<rparr>)))"

text \<open>\<^verbatim>\<open>erase(list_iterator)\<close>, with its \<^verbatim>\<open>assert(map_it != map.end())\<close>.\<close>

definition erase_iter ::
  "('e \<Rightarrow> 'k) \<Rightarrow> addr \<Rightarrow> pos \<Rightarrow> ('k, 'e) fifo \<Rightarrow> error + ('k, 'e) fifo" where
  "erase_iter key_of this list_it c =
     (case deref (list_f c) list_it of
        Inl e \<Rightarrow> Inl e
      | Inr v \<Rightarrow>
          (case map_f c (key_of v) of
             None \<Rightarrow> Inl AssertionFailed
           | Some list_before_item \<Rightarrow> erase_entry key_of this (key_of v) list_before_item c))"

text \<open>\<^verbatim>\<open>erase(value_type const&)\<close> and \<^verbatim>\<open>erase(key_type const&)\<close>.\<close>

definition erase_key ::
  "('e \<Rightarrow> 'k) \<Rightarrow> addr \<Rightarrow> 'k \<Rightarrow> ('k, 'e) fifo \<Rightarrow> error + ('k, 'e) fifo" where
  "erase_key key_of this x c =
     (case map_f c x of
        None \<Rightarrow> Inr c
      | Some list_before_item \<Rightarrow> erase_entry key_of this x list_before_item c)"

definition clear :: "addr \<Rightarrow> ('k, 'e) fifo \<Rightarrow> ('k, 'e) fifo" where
  "clear this c = \<lparr>map_f = Map.empty, list_f = [], list_back = before_begin this\<rparr>"

text \<open>
  Move construction of a container at address \<open>this\<close> from \<open>other\<close>. The moved-from index
  and list are left empty; \<^verbatim>\<open>other.list_back\<close> is read after the two members were moved.
  The result is the new container and what is left of \<open>other\<close>. Move assignment to another
  object runs the same statements on an existing \<open>this\<close>.
\<close>

definition move_construct ::
  "('e \<Rightarrow> 'k) \<Rightarrow> addr \<Rightarrow> ('k, 'e) fifo \<Rightarrow> error + (('k, 'e) fifo \<times> ('k, 'e) fifo)" where
  "move_construct key_of this other =
     (let m = map_f other;
          l = list_f other;
          other' = other\<lparr>map_f := Map.empty, list_f := []\<rparr>;
          lb = (if l = [] then before_begin this else list_back other')
      in if l \<noteq> [] then
           (case front l of
              Inl e \<Rightarrow> Inl e
            | Inr first \<Rightarrow>
                (case map_at_assign m (key_of first) (before_begin this) of
                   Inl e \<Rightarrow> Inl e
                 | Inr m' \<Rightarrow> Inr (\<lparr>map_f = m', list_f = l, list_back = lb\<rparr>, other')))
         else Inr (\<lparr>map_f = m, list_f = l, list_back = lb\<rparr>, other'))"

section \<open>Iteration\<close>

text \<open>
  The range-for loop \<^verbatim>\<open>for (auto&& x: c)\<close>: from \<^verbatim>\<open>begin()\<close>, dereference and step until
  \<^verbatim>\<open>end()\<close> is reached, collecting the elements visited. A loop that does not end has no
  value.
\<close>

partial_function (option) iterate_from ::
  "addr \<Rightarrow> 'e forward_list \<Rightarrow> pos \<Rightarrow> 'e list \<Rightarrow> (error + 'e list) option" where
  "iterate_from this l it acc =
     (if it = End then Some (Inr acc)
      else case deref l it of
             Inl e \<Rightarrow> Some (Inl e)
           | Inr v \<Rightarrow>
               (case incr this l it of
                  Inl e \<Rightarrow> Some (Inl e)
                | Inr it' \<Rightarrow> iterate_from this l it' (acc @ [v])))"

definition elements :: "addr \<Rightarrow> ('k, 'e) fifo \<Rightarrow> (error + 'e list) option" where
  "elements this c = iterate_from this (list_f c) (list_begin (list_f c)) []"

section \<open>The map facade: \<^verbatim>\<open>at\<close> and \<^verbatim>\<open>operator[]\<close>\<close>

text \<open>
  \<^verbatim>\<open>at\<close> reads the mapped value; \<^verbatim>\<open>map.at(key)\<close> throws \<^verbatim>\<open>std::out_of_range\<close> for an absent
  key.
\<close>

definition at :: "addr \<Rightarrow> ('k, 'k \<times> 't) fifo \<Rightarrow> 'k \<Rightarrow> error + 't" where
  "at this c key =
     (case map_f c key of
        None \<Rightarrow> Inl OutOfRange
      | Some list_before_item \<Rightarrow>
          (case incr this (list_f c) list_before_item of
             Inl e \<Rightarrow> Inl e
           | Inr list_it \<Rightarrow>
               (case deref (list_f c) list_it of
                  Inl e \<Rightarrow> Inl e
                | Inr kv \<Rightarrow> Inr (snd kv))))"

text \<open>
  \<^verbatim>\<open>operator[]\<close> returns a reference to the mapped value of a node; the reference is
  modelled by the position of that node. \<open>dflt\<close> is the value-initialised
  \<^verbatim>\<open>mapped_type{}\<close>.
\<close>

definition subscript ::
  "'t \<Rightarrow> addr \<Rightarrow> 'k \<Rightarrow> ('k, 'k \<times> 't) fifo \<times> addr
     \<Rightarrow> error + (pos \<times> ('k, 'k \<times> 't) fifo \<times> addr)" where
  "subscript dflt this key = (\<lambda>(c, h).
     case find_f this c key of
       Inl e \<Rightarrow> Inl e
     | Inr list_it \<Rightarrow>
         if list_it \<noteq> End then
           (case deref (list_f c) list_it of
              Inl e \<Rightarrow> Inl e
            | Inr kv \<Rightarrow> Inr (list_it, c, h))
         else
           (case emplace fst this (key, dflt) (c, h) of
              Inl e \<Rightarrow> Inl e
            | Inr ((it, inserted), c', h') \<Rightarrow>
                (case deref (list_f c') it of
                   Inl e \<Rightarrow> Inl e
                 | Inr kv \<Rightarrow> Inr (it, c', h'))))"

text \<open>Reading and assigning through such a reference.\<close>

definition load_mapped :: "('k, 'k \<times> 't) fifo \<Rightarrow> pos \<Rightarrow> error + 't" where
  "load_mapped c r = (case deref (list_f c) r of Inl e \<Rightarrow> Inl e | Inr kv \<Rightarrow> Inr (snd kv))"

definition store_mapped ::
  "('k, 'k \<times> 't) fifo \<Rightarrow> pos \<Rightarrow> 't \<Rightarrow> error + ('k, 'k \<times> 't) fifo" where
  "store_mapped c r x =
     (case deref (list_f c) r of
        Inl e \<Rightarrow> Inl e
      | Inr kv \<Rightarrow>
          Inr (c\<lparr>list_f :=
                 map (\<lambda>(a, kv'). if Node a = r then (a, (fst kv', x)) else (a, kv')) (list_f c)\<rparr>))"

section \<open>The set facade: copying\<close>

text \<open>
  Copy construction and copy assignment take the source by reference, and the source of an
  assignment may be the destination itself. Containers therefore live in a store, addressed
  by the address of the object; the loop reads the source from the store at every step.
\<close>

type_synonym 'a store = "addr \<Rightarrow> ('a, 'a) fifo"

partial_function (option) copy_loop ::
  "addr \<Rightarrow> addr \<Rightarrow> pos \<Rightarrow> 'a store \<times> addr \<Rightarrow> (error + 'a store \<times> addr) option" where
  "copy_loop this x it s =
     (if it = End then Some (Inr s)
      else case deref (list_f (fst s x)) it of
             Inl e \<Rightarrow> Some (Inl e)
           | Inr kv \<Rightarrow>
               (case emplace_back (\<lambda>v. v) this kv (fst s this, snd s) of
                  Inl e \<Rightarrow> Some (Inl e)
                | Inr (r, c', h') \<Rightarrow>
                    (case incr x (list_f (((fst s)(this := c')) x)) it of
                       Inl e \<Rightarrow> Some (Inl e)
                     | Inr it' \<Rightarrow> copy_loop this x it' ((fst s)(this := c'), h'))))"

text \<open>\<^verbatim>\<open>fifo_set(fifo_set const& x)\<close>\<close>

definition copy_construct ::
  "addr \<Rightarrow> addr \<Rightarrow> 'a store \<times> addr \<Rightarrow> (error + 'a store \<times> addr) option" where
  "copy_construct this x = (\<lambda>(st, h).
     let st0 = st(this := init this)
     in copy_loop this x (list_begin (list_f (st0 x))) (st0, h))"

text \<open>\<^verbatim>\<open>operator = (fifo_set const& x)\<close>\<close>

definition copy_assign ::
  "addr \<Rightarrow> addr \<Rightarrow> 'a store \<times> addr \<Rightarrow> (error + 'a store \<times> addr) option" where
  "copy_assign this x = (\<lambda>(st, h).
     let st1 = st(this := clear this (st this))
     in copy_loop this x (list_begin (list_f (st1 x))) (st1, h))"

section \<open>Sequences of public operations\<close>

datatype ('k, 'e) operation =
  Emplace 'e | EmplaceBack 'e | EmplaceFront 'e | EraseKey 'k | EraseIter pos | Clear
| MoveTo addr

text \<open>
  A program state is the address of the container in use, the container, and the next free
  heap address. \<open>MoveTo t\<close> move-constructs a container at address \<open>t\<close> from the current one
  and goes on with the new container.
\<close>

fun step ::
  "('e \<Rightarrow> 'k) \<Rightarrow> ('k, 'e) operation \<Rightarrow> addr \<times> ('k, 'e) fifo \<times> addr
     \<Rightarrow> error + (addr \<times> ('k, 'e) fifo \<times> addr)" where
  "step key_of (Emplace v) (this, c, h) =
     (case emplace key_of this v (c, h) of
        Inl e \<Rightarrow> Inl e | Inr (r, c', h') \<Rightarrow> Inr (this, c', h'))"
| "step key_of (EmplaceBack v) (this, c, h) =
     (case emplace_back key_of this v (c, h) of
        Inl e \<Rightarrow> Inl e | Inr (r, c', h') \<Rightarrow> Inr (this, c', h'))"
| "step key_of (EmplaceFront v) (this, c, h) =
     (case emplace_front key_of this v (c, h) of
        Inl e \<Rightarrow> Inl e | Inr (r, c', h') \<Rightarrow> Inr (this, c', h'))"
| "step key_of (EraseKey k) (this, c, h) =
     (case erase_key key_of this k c of Inl e \<Rightarrow> Inl e | Inr c' \<Rightarrow> Inr (this, c', h))"
| "step key_of (EraseIter it) (this, c, h) =
     (case erase_iter key_of this it c of Inl e \<Rightarrow> Inl e | Inr c' \<Rightarrow> Inr (this, c', h))"
| "step key_of Clear (this, c, h) = Inr (this, clear this c, h)"
| "step key_of (MoveTo t) (this, c, h) =
     (case move_construct key_of t c of
        Inl e \<Rightarrow> Inl e | Inr (c', other') \<Rightarrow> Inr (t, c', h))"

fun run ::
  "('e \<Rightarrow> 'k) \<Rightarrow> ('k, 'e) operation list \<Rightarrow> addr \<times> ('k, 'e) fifo \<times> addr
     \<Rightarrow> error + (addr \<times> ('k, 'e) fifo \<times> addr)" where
  "run key_of [] s = Inr s"
| "run key_of (x # xs) s =
     (case step key_of x s of Inl e \<Rightarrow> Inl e | Inr s' \<Rightarrow> run key_of xs s')"

section \<open>The invariants of the data model\<close>

text \<open>
  I2, checked by walking the order list with the predecessor position at hand: the index
  entry of every node's identity is the position immediately before the node, and stepping
  that position once yields the node.
\<close>

fun I2_from ::
  "('e \<Rightarrow> 'k) \<Rightarrow> addr \<Rightarrow> ('k, 'e) fifo \<Rightarrow> pos \<Rightarrow> 'e forward_list \<Rightarrow> bool" where
  "I2_from key_of this c p [] = True"
| "I2_from key_of this c p ((a, e) # r) =
     (map_f c (key_of e) = Some p \<and> incr this (list_f c) p = Inr (Node a)
      \<and> I2_from key_of this c (Node a) r)"

definition I2 :: "('e \<Rightarrow> 'k) \<Rightarrow> addr \<Rightarrow> ('k, 'e) fifo \<Rightarrow> bool" where
  "I2 key_of this c = I2_from key_of this c (BeforeBegin this) (list_f c)"

text \<open>The position of the last node, and the position immediately before it.\<close>

definition last_pos :: "addr \<Rightarrow> 'e forward_list \<Rightarrow> pos" where
  "last_pos this l = last (BeforeBegin this # map (\<lambda>n. Node (fst n)) l)"

definition before_last_pos :: "addr \<Rightarrow> 'e forward_list \<Rightarrow> pos" where
  "before_last_pos this l = last_pos this (butlast l)"

text \<open>I3 as the specification words it: the tail is the predecessor of the last node.\<close>

definition I3_spec :: "addr \<Rightarrow> ('k, 'e) fifo \<Rightarrow> bool" where
  "I3_spec this c =
     (if list_f c = [] then list_back c = BeforeBegin this
      else list_back c = before_last_pos this (list_f c))"

text \<open>What the code keeps: the tail is the last node itself.\<close>

definition I3_code :: "addr \<Rightarrow> ('k, 'e) fifo \<Rightarrow> bool" where
  "I3_code this c = (list_back c = last_pos this (list_f c))"

section \<open>The abstraction used in the proofs\<close>

text \<open>
  A well-formed container is determined by its order list: the index maps the identity of
  every node to the position before it, and the tail is the last position.
\<close>

fun index_of :: "('e \<Rightarrow> 'k) \<Rightarrow> pos \<Rightarrow> 'e forward_list \<Rightarrow> ('k \<rightharpoonup> pos)" where
  "index_of key_of p [] = Map.empty"
| "index_of key_of p ((a, e) # l) = (index_of key_of (Node a) l)(key_of e \<mapsto> p)"

definition tail_of :: "pos \<Rightarrow> 'e forward_list \<Rightarrow> pos" where
  "tail_of p l = last (p # map (\<lambda>n. Node (fst n)) l)"

definition mk :: "('e \<Rightarrow> 'k) \<Rightarrow> addr \<Rightarrow> 'e forward_list \<Rightarrow> ('k, 'e) fifo" where
  "mk key_of this l =
     \<lparr>map_f = index_of key_of (BeforeBegin this) l, list_f = l,
      list_back = tail_of (BeforeBegin this) l\<rparr>"

text \<open>
  Node addresses are distinct and below the next free address; identities are distinct.
\<close>

definition sane :: "('e \<Rightarrow> 'k) \<Rightarrow> addr \<Rightarrow> 'e forward_list \<Rightarrow> bool" where
  "sane key_of h l \<longleftrightarrow>
     distinct (map fst l) \<and> (\<forall>a \<in> set (map fst l). a < h)
     \<and> distinct (map (\<lambda>n. key_of (snd n)) l)"

definition keys_of :: "('e \<Rightarrow> 'k) \<Rightarrow> 'e forward_list \<Rightarrow> 'k set" where
  "keys_of key_of l = (\<lambda>n. key_of (snd n)) ` set l"

text \<open>The effect of one operation on the order list and the heap.\<close>

fun astep ::
  "('e \<Rightarrow> 'k) \<Rightarrow> ('k, 'e) operation \<Rightarrow> 'e forward_list \<times> addr
     \<Rightarrow> error + ('e forward_list \<times> addr)" where
  "astep key_of (Emplace v) (l, h) =
     (if key_of v \<in> keys_of key_of l then Inr (l, h) else Inr (l @ [(h, v)], Suc h))"
| "astep key_of (EmplaceBack v) (l, h) =
     (if key_of v \<in> keys_of key_of l then Inr (l, h) else Inr (l @ [(h, v)], Suc h))"
| "astep key_of (EmplaceFront v) (l, h) =
     (if key_of v \<in> keys_of key_of l then Inr (l, h) else Inr ((h, v) # l, Suc h))"
| "astep key_of (EraseKey k) (l, h) = Inr (filter (\<lambda>n. key_of (snd n) \<noteq> k) l, h)"
| "astep key_of (EraseIter it) (l, h) =
     (case deref l it of
        Inl e \<Rightarrow> Inl e
      | Inr v \<Rightarrow> Inr (filter (\<lambda>n. key_of (snd n) \<noteq> key_of v) l, h))"
| "astep key_of Clear (l, h) = Inr ([], h)"
| "astep key_of (MoveTo t) (l, h) = Inr (l, h)"

fun new_this :: "('k, 'e) operation \<Rightarrow> addr \<Rightarrow> addr" where
  "new_this (MoveTo t) this = t"
| "new_this x this = this"

fun arun ::
  "('e \<Rightarrow> 'k) \<Rightarrow> ('k, 'e) operation list \<Rightarrow> 'e forward_list \<times> addr
     \<Rightarrow> error + ('e forward_list \<times> addr)" where
  "arun key_of [] s = Inr s"
| "arun key_of (x # xs) s =
     (case astep key_of x s of Inl e \<Rightarrow> Inl e | Inr s' \<Rightarrow> arun key_of xs s')"

section \<open>Lemmas about the order list and the index\<close>

lemma tail_of_Nil [simp]: "tail_of p [] = p"
  by (simp add: tail_of_def)

lemma tail_of_Cons [simp]: "tail_of p ((a, e) # l) = tail_of (Node a) l"
  by (simp add: tail_of_def)

lemma tail_of_append: "tail_of p (l1 @ l2) = tail_of (tail_of p l1) l2"
  by (induction l1 arbitrary: p) auto

lemma tail_of_snoc [simp]: "tail_of p (l @ [(a, e)]) = Node a"
  by (simp add: tail_of_append)

lemma tail_of_nonempty: "l \<noteq> [] \<Longrightarrow> tail_of p l = tail_of q l"
  by (cases l) auto

lemma list_begin_Nil [simp]: "list_begin [] = End"
  by (simp add: list_begin_def)

lemma list_begin_Cons [simp]: "list_begin ((a, e) # l) = Node a"
  by (simp add: list_begin_def)

lemma list_begin_End [simp]: "list_begin l = End \<longleftrightarrow> l = []"
  by (cases l) auto

lemma after_node_split:
  "a \<notin> fst ` set l1 \<Longrightarrow> after_node (l1 @ (a, e) # l2) a = Some (list_begin l2)"
  by (induction l1) auto

lemma insert_after_node_split:
  "a \<notin> fst ` set l1 \<Longrightarrow> insert_after_node (l1 @ (a, e) # l2) a n = Some (l1 @ (a, e) # n # l2)"
  by (induction l1) auto

lemma erase_after_node_split:
  "a \<notin> fst ` set l1 \<Longrightarrow>
   erase_after_node (l1 @ (a, e) # x # l2) a = Some (l1 @ (a, e) # l2, list_begin l2)"
proof (induction l1)
  case Nil
  then show ?case by (cases x) simp
next
  case (Cons y l1)
  obtain b v where y: "y = (b, v)" by (cases y)
  from Cons show ?case
    by (cases l1) (auto simp: y)
qed

lemma map_of_split: "a \<notin> fst ` set l1 \<Longrightarrow> map_of (l1 @ (a, e) # l2) a = Some e"
  by (induction l1) auto

lemma deref_split:
  "a \<notin> fst ` set l1 \<Longrightarrow> deref (l1 @ (a, e) # l2) (Node a) = Inr e"
  using map_of_split [of a l1 e l2] by (simp add: deref_def del: map_of_append)

lemma incr_tail_of:
  assumes "distinct (map fst (l1 @ (a, e) # l2))"
  shows "incr this (l1 @ (a, e) # l2) (tail_of (BeforeBegin this) l1) = Inr (Node a)"
proof (cases l1 rule: rev_cases)
  case Nil
  then show ?thesis by (simp add: incr_def)
next
  case (snoc l0 y)
  obtain b v where y: "y = (b, v)" by (cases y)
  from assms snoc y have "b \<notin> fst ` set l0" by auto
  then have "after_node (l0 @ (b, v) # (a, e) # l2) b = Some (Node a)"
    by (simp add: after_node_split)
  then show ?thesis by (simp add: snoc y incr_def)
qed

lemma insert_after_tail_of:
  assumes "distinct (map fst (l1 @ l2))"
  shows "insert_after this (l1 @ l2) (tail_of (BeforeBegin this) l1) n v
         = Inr (l1 @ (n, v) # l2, Node n)"
proof (cases l1 rule: rev_cases)
  case Nil
  then show ?thesis by (simp add: insert_after_def)
next
  case (snoc l0 y)
  obtain b w where y: "y = (b, w)" by (cases y)
  from assms snoc y have "b \<notin> fst ` set l0" by auto
  then have "insert_after_node (l0 @ (b, w) # l2) b (n, v) = Some (l0 @ (b, w) # (n, v) # l2)"
    by (rule insert_after_node_split)
  then show ?thesis by (simp add: snoc y insert_after_def)
qed

lemma erase_after_tail_of:
  assumes "distinct (map fst (l1 @ x # l2))"
  shows "erase_after this (l1 @ x # l2) (tail_of (BeforeBegin this) l1)
         = Inr (l1 @ l2, list_begin l2)"
proof (cases l1 rule: rev_cases)
  case Nil
  then show ?thesis by (simp add: erase_after_def)
next
  case (snoc l0 y)
  obtain b w where y: "y = (b, w)" by (cases y)
  from assms snoc y have "b \<notin> fst ` set l0" by auto
  then have "erase_after_node (l0 @ (b, w) # x # l2) b = Some (l0 @ (b, w) # l2, list_begin l2)"
    by (rule erase_after_node_split)
  then show ?thesis by (simp add: snoc y erase_after_def)
qed

lemma dom_index_of: "dom (index_of key_of p l) = (\<lambda>n. key_of (snd n)) ` set l"
proof (induction l arbitrary: p)
  case Nil
  show ?case by simp
next
  case (Cons x l)
  obtain a e where x: "x = (a, e)" by (cases x)
  have "dom (index_of key_of p (x # l)) = insert (key_of e) (dom (index_of key_of (Node a) l))"
    by (simp add: x)
  also have "\<dots> = (\<lambda>n. key_of (snd n)) ` set (x # l)"
    by (simp add: Cons.IH x)
  finally show ?case .
qed

lemma index_of_append:
  "index_of key_of p (l1 @ l2) = index_of key_of (tail_of p l1) l2 ++ index_of key_of p l1"
proof (induction l1 arbitrary: p)
  case Nil
  show ?case by simp
next
  case (Cons x l1)
  obtain a e where x: "x = (a, e)" by (cases x)
  have "index_of key_of p ((x # l1) @ l2) = (index_of key_of (Node a) (l1 @ l2))(key_of e \<mapsto> p)"
    by (simp add: x)
  also have "\<dots> = (index_of key_of (tail_of (Node a) l1) l2 ++ index_of key_of (Node a) l1)
                      (key_of e \<mapsto> p)"
    by (simp only: Cons.IH)
  also have "\<dots> = index_of key_of (tail_of p (x # l1)) l2 ++ index_of key_of p (x # l1)"
    by (simp add: x)
  finally show ?case .
qed

lemma index_of_split:
  assumes "key_of e \<notin> (\<lambda>n. key_of (snd n)) ` set l1"
  shows "index_of key_of p (l1 @ (a, e) # l2) (key_of e) = Some (tail_of p l1)"
proof -
  from assms have "index_of key_of p l1 (key_of e) = None"
    using dom_index_of [of key_of p l1] by blast
  then show ?thesis
    by (simp add: index_of_append map_add_def)
qed


lemma map_add_single_absent:
  "m k = None \<Longrightarrow> [k \<mapsto> t] ++ m = m(k \<mapsto> t)"
  by (rule ext) (simp add: map_add_def split: option.splits)

lemma index_of_snoc:
  assumes "key_of v \<notin> (\<lambda>n. key_of (snd n)) ` set l"
  shows "index_of key_of p (l @ [(h, v)]) = (index_of key_of p l)(key_of v \<mapsto> tail_of p l)"
proof -
  from assms have "index_of key_of p l (key_of v) = None"
    using dom_index_of [of key_of p l] by blast
  then show ?thesis
    by (simp add: index_of_append map_add_single_absent)
qed

lemma index_of_absent:
  "index_of key_of p l k = None \<longleftrightarrow> k \<notin> (\<lambda>n. key_of (snd n)) ` set l"
  using dom_index_of [of key_of p l] by blast

lemma sane_split_key:
  assumes "distinct (map (\<lambda>n. key_of (snd n)) l)" "(a, e) \<in> set l"
  obtains l1 l2 where "l = l1 @ (a, e) # l2"
    "key_of e \<notin> (\<lambda>n. key_of (snd n)) ` set l1" "key_of e \<notin> (\<lambda>n. key_of (snd n)) ` set l2"
proof -
  from assms(2) obtain l1 l2 where l: "l = l1 @ (a, e) # l2"
    by (auto simp: in_set_conv_decomp)
  with assms(1) have "key_of e \<notin> (\<lambda>n. key_of (snd n)) ` set l1"
    "key_of e \<notin> (\<lambda>n. key_of (snd n)) ` set l2"
    by auto
  with l show thesis by (rule that)
qed

lemma emplace_back_absent:
  assumes "distinct (map fst l)" "key_of v \<notin> (\<lambda>n. key_of (snd n)) ` set l"
  shows "emplace_back key_of this v (mk key_of this l, h)
         = Inr ((Node h, True), mk key_of this (l @ [(h, v)]), Suc h)"
proof -
  have none: "index_of key_of (BeforeBegin this) l (key_of v) = None"
    using assms(2) by (simp add: index_of_absent)
  have ins: "insert_after this l (tail_of (BeforeBegin this) l) h v = Inr (l @ [(h, v)], Node h)"
    using insert_after_tail_of [of l "[]" this h v] assms(1) by simp
  show ?thesis
    by (simp add: emplace_back_def mk_def none ins map_emplace_def index_of_snoc [OF assms(2)])
qed

lemma emplace_back_present:
  assumes "distinct (map fst (l1 @ (a, e) # l2))"
    "key_of e \<notin> (\<lambda>n. key_of (snd n)) ` set l1" "key_of v = key_of e"
  shows "emplace_back key_of this v (mk key_of this (l1 @ (a, e) # l2), h)
         = Inr ((Node a, False), mk key_of this (l1 @ (a, e) # l2), h)"
proof -
  have some: "index_of key_of (BeforeBegin this) (l1 @ (a, e) # l2) (key_of v)
              = Some (tail_of (BeforeBegin this) l1)"
    using index_of_split [OF assms(2)] assms(3) by simp
  show ?thesis
    by (simp add: emplace_back_def mk_def some incr_tail_of [OF assms(1)])
qed


lemma empty_f_mk [simp]: "empty_f (mk key_of this l) \<longleftrightarrow> l = []"
  by (simp add: empty_f_def mk_def dom_index_of)

lemma size_f_mk:
  "distinct (map (\<lambda>n. key_of (snd n)) l) \<Longrightarrow> size_f (mk key_of this l) = length l"
  using distinct_card [of "map (\<lambda>n. key_of (snd n)) l"]
  by (simp add: size_f_def mk_def dom_index_of)

lemma emplace_front_absent:
  assumes "key_of v \<notin> (\<lambda>n. key_of (snd n)) ` set l"
  shows "emplace_front key_of this v (mk key_of this l, h)
         = Inr ((Node h, True), mk key_of this ((h, v) # l), Suc h)"
proof (cases l)
  case Nil
  then show ?thesis
    by (simp add: emplace_front_def mk_def empty_f_def insert_after_def map_emplace_def)
next
  case (Cons x l')
  obtain a e where x: "x = (a, e)" by (cases x)
  define c where "c = mk key_of this l"
  have ne: "key_of v \<noteq> key_of e"
    using assms Cons x by auto
  have none: "index_of key_of (Node a) l' (key_of v) = None"
    using assms Cons x by (simp add: index_of_absent)
  have 1: "map_f c (key_of v) = None"
    using ne none by (simp add: c_def mk_def Cons x)
  have 2: "\<not> empty_f c"
    by (simp add: c_def Cons)
  have 3: "front (list_f c) = Inr e"
    by (simp add: c_def mk_def Cons x front_def)
  have 4: "map_f c (key_of e) = Some (BeforeBegin this)"
    by (simp add: c_def mk_def Cons x)
  have 5: "insert_after this (list_f c) (BeforeBegin this) h v = Inr ((h, v) # l, Node h)"
    by (simp add: c_def mk_def insert_after_def)
  have 6: "map_emplace ((map_f c)(key_of e \<mapsto> Node h)) (key_of v) (BeforeBegin this)
           = index_of key_of (BeforeBegin this) ((h, v) # l)"
    using ne none by (simp add: c_def mk_def Cons x map_emplace_def)
  have 7: "list_back c = tail_of (BeforeBegin this) ((h, v) # l)"
    by (simp add: c_def mk_def Cons x)
  have "emplace_front key_of this v (c, h)
        = Inr ((Node h, True),
               \<lparr>map_f = map_emplace ((map_f c)(key_of e \<mapsto> Node h)) (key_of v) (BeforeBegin this),
                list_f = (h, v) # l, list_back = list_back c\<rparr>, Suc h)"
    by (simp add: emplace_front_def 1 2 3 4 5)
  then have "emplace_front key_of this v (c, h)
        = Inr ((Node h, True), mk key_of this ((h, v) # l), Suc h)"
    unfolding 6 7 by (simp add: mk_def)
  then show ?thesis
    by (simp only: c_def)
qed

lemma emplace_front_present:
  assumes "distinct (map fst (l1 @ (a, e) # l2))"
    "key_of e \<notin> (\<lambda>n. key_of (snd n)) ` set l1" "key_of v = key_of e"
  shows "emplace_front key_of this v (mk key_of this (l1 @ (a, e) # l2), h)
         = Inr ((Node a, False), mk key_of this (l1 @ (a, e) # l2), h)"
proof -
  have some: "index_of key_of (BeforeBegin this) (l1 @ (a, e) # l2) (key_of v)
              = Some (tail_of (BeforeBegin this) l1)"
    using index_of_split [OF assms(2)] assms(3) by simp
  show ?thesis
    by (simp add: emplace_front_def mk_def some incr_tail_of [OF assms(1)])
qed

lemma index_of_erase_last:
  assumes "key_of e \<notin> (\<lambda>n. key_of (snd n)) ` set l1"
  shows "(index_of key_of p (l1 @ [(a, e)]))(key_of e := None) = index_of key_of p l1"
proof -
  from assms have "index_of key_of p l1 (key_of e) = None"
    by (simp add: index_of_absent)
  then show ?thesis
    by (simp add: index_of_snoc [OF assms] fun_upd_idem)
qed

lemma index_of_erase_inner:
  assumes "key_of e \<notin> (\<lambda>n. key_of (snd n)) ` set l1"
    "key_of e \<notin> (\<lambda>n. key_of (snd n)) ` set l2" "key_of e \<noteq> key_of f"
    "key_of f \<notin> (\<lambda>n. key_of (snd n)) ` set l1"
  shows "((index_of key_of p (l1 @ (a, e) # (b, f) # l2))(key_of e := None))
           (key_of f \<mapsto> tail_of p l1)
         = index_of key_of p (l1 @ (b, f) # l2)"
proof (rule ext)
  fix k
  have e1: "index_of key_of p l1 (key_of e) = None"
    using assms(1) by (simp add: index_of_absent)
  have f1: "index_of key_of p l1 (key_of f) = None"
    using assms(4) by (simp add: index_of_absent)
  have e2: "index_of key_of (Node b) l2 (key_of e) = None"
    using assms(2) by (simp add: index_of_absent)
  show "(((index_of key_of p (l1 @ (a, e) # (b, f) # l2))(key_of e := None))
           (key_of f \<mapsto> tail_of p l1)) k
        = index_of key_of p (l1 @ (b, f) # l2) k"
    using e1 f1 e2 assms(3)
    by (simp add: index_of_append map_add_def split: option.splits)
qed


lemma erase_entry_split:
  assumes d: "distinct (map fst (l1 @ (a, e) # l2))"
    and k: "distinct (map (\<lambda>n. key_of (snd n)) (l1 @ (a, e) # l2))"
  shows "erase_entry key_of this (key_of e) (tail_of (BeforeBegin this) l1)
           (mk key_of this (l1 @ (a, e) # l2))
         = Inr (mk key_of this (l1 @ l2))"
proof -
  define c where "c = mk key_of this (l1 @ (a, e) # l2)"
  have e1: "key_of e \<notin> (\<lambda>n. key_of (snd n)) ` set l1"
    and e2: "key_of e \<notin> (\<lambda>n. key_of (snd n)) ` set l2"
    using k by auto
  have er: "erase_after this (list_f c) (tail_of (BeforeBegin this) l1)
            = Inr (l1 @ l2, list_begin l2)"
    using erase_after_tail_of [OF d] by (simp add: c_def mk_def)
  show ?thesis
  proof (cases l2)
    case Nil
    have "(map_f c)(key_of e := None) = index_of key_of (BeforeBegin this) l1"
      using index_of_erase_last [OF e1] by (simp add: c_def mk_def Nil)
    then have "erase_entry key_of this (key_of e) (tail_of (BeforeBegin this) l1) c
               = Inr (mk key_of this (l1 @ l2))"
      by (simp add: erase_entry_def er) (simp add: Nil mk_def)
    then show ?thesis by (simp only: c_def)
  next
    case (Cons y l2')
    obtain b f where y: "y = (b, f)" by (cases y)
    have ne: "key_of e \<noteq> key_of f"
      and f1: "key_of f \<notin> (\<lambda>n. key_of (snd n)) ` set l1"
      and e2': "key_of e \<notin> (\<lambda>n. key_of (snd n)) ` set l2'"
      using k Cons y by auto
    have b1: "b \<notin> fst ` set l1"
      using d Cons y by auto
    have de: "deref (l1 @ l2) (Node b) = Inr f"
      using deref_split [OF b1] by (simp add: Cons y)
    have dom_f: "((map_f c)(key_of e := None)) (key_of f) \<noteq> None"
      using ne by (simp add: c_def mk_def index_of_absent Cons y)
    have upd: "((map_f c)(key_of e := None))(key_of f \<mapsto> tail_of (BeforeBegin this) l1)
               = index_of key_of (BeforeBegin this) (l1 @ l2)"
      using index_of_erase_inner [OF e1 e2' ne f1] by (simp add: c_def mk_def Cons y)
    have lb: "list_back c = tail_of (BeforeBegin this) (l1 @ l2)"
      by (simp add: c_def mk_def tail_of_append Cons y)
    have at: "map_at_assign ((map_f c)(key_of e := None)) (key_of f)
                (tail_of (BeforeBegin this) l1)
              = Inr (index_of key_of (BeforeBegin this) (l1 @ l2))"
    proof -
      from dom_f obtain q where "((map_f c)(key_of e := None)) (key_of f) = Some q"
        by blast
      then show ?thesis
        by (simp only: map_at_assign_def option.case upd)
    qed
    have nb: "list_begin l2 \<noteq> End"
      by (simp add: Cons)
    have "erase_entry key_of this (key_of e) (tail_of (BeforeBegin this) l1) c
          = Inr (mk key_of this (l1 @ l2))"
      unfolding erase_entry_def Let_def er
      using nb by (simp add: Cons y) (simp add: de [unfolded Cons y] at [unfolded Cons y] lb [unfolded Cons y] mk_def)
    then show ?thesis by (simp only: c_def)
  qed
qed


lemma filter_key_split:
  assumes "key_of e \<notin> (\<lambda>n. key_of (snd n)) ` set l1"
    "key_of e \<notin> (\<lambda>n. key_of (snd n)) ` set l2"
  shows "filter (\<lambda>n. key_of (snd n) \<noteq> key_of e) (l1 @ (a, e) # l2) = l1 @ l2"
proof -
  have "filter (\<lambda>n. key_of (snd n) \<noteq> key_of e) l1 = l1"
    using assms(1) by (force simp: filter_id_conv)
  moreover have "filter (\<lambda>n. key_of (snd n) \<noteq> key_of e) l2 = l2"
    using assms(2) by (force simp: filter_id_conv)
  ultimately show ?thesis by simp
qed

lemma erase_key_mk:
  assumes "sane key_of h l"
  shows "erase_key key_of this k (mk key_of this l)
         = Inr (mk key_of this (filter (\<lambda>n. key_of (snd n) \<noteq> k) l))"
proof (cases "k \<in> (\<lambda>n. key_of (snd n)) ` set l")
  case False
  then have "filter (\<lambda>n. key_of (snd n) \<noteq> k) l = l"
    by (force simp: filter_id_conv)
  moreover from False have "map_f (mk key_of this l) k = None"
    by (simp add: mk_def index_of_absent)
  ultimately show ?thesis
    by (simp add: erase_key_def)
next
  case True
  then obtain a e where ae: "(a, e) \<in> set l" and ke: "k = key_of e"
    by auto
  from assms have dk: "distinct (map (\<lambda>n. key_of (snd n)) l)" and da: "distinct (map fst l)"
    by (simp_all add: sane_def)
  from dk ae obtain l1 l2 where l: "l = l1 @ (a, e) # l2"
    and e1: "key_of e \<notin> (\<lambda>n. key_of (snd n)) ` set l1"
    and e2: "key_of e \<notin> (\<lambda>n. key_of (snd n)) ` set l2"
    by (rule sane_split_key)
  have some: "map_f (mk key_of this l) k = Some (tail_of (BeforeBegin this) l1)"
    using index_of_split [OF e1] by (simp add: mk_def l ke)
  have "erase_entry key_of this k (tail_of (BeforeBegin this) l1) (mk key_of this l)
        = Inr (mk key_of this (l1 @ l2))"
    using erase_entry_split [of l1 a e l2 key_of this] dk da by (simp add: l ke)
  moreover have "filter (\<lambda>n. key_of (snd n) \<noteq> k) l = l1 @ l2"
    unfolding l ke by (rule filter_key_split [OF e1 e2])
  ultimately show ?thesis
    by (simp add: erase_key_def some)
qed

lemma erase_iter_mk:
  assumes "sane key_of h l" "(a, e) \<in> set l"
  shows "erase_iter key_of this (Node a) (mk key_of this l)
         = Inr (mk key_of this (filter (\<lambda>n. key_of (snd n) \<noteq> key_of e) l))"
proof -
  from assms have dk: "distinct (map (\<lambda>n. key_of (snd n)) l)" and da: "distinct (map fst l)"
    by (simp_all add: sane_def)
  from dk assms(2) obtain l1 l2 where l: "l = l1 @ (a, e) # l2"
    and e1: "key_of e \<notin> (\<lambda>n. key_of (snd n)) ` set l1"
    and e2: "key_of e \<notin> (\<lambda>n. key_of (snd n)) ` set l2"
    by (rule sane_split_key)
  have a1: "a \<notin> fst ` set l1"
    using da l by auto
  have de: "deref (list_f (mk key_of this l)) (Node a) = Inr e"
    using deref_split [OF a1] by (simp add: mk_def l)
  have some: "map_f (mk key_of this l) (key_of e) = Some (tail_of (BeforeBegin this) l1)"
    using index_of_split [OF e1] by (simp add: mk_def l)
  have "erase_entry key_of this (key_of e) (tail_of (BeforeBegin this) l1) (mk key_of this l)
        = Inr (mk key_of this (l1 @ l2))"
    using erase_entry_split [of l1 a e l2 key_of this] dk da by (simp add: l)
  moreover have "filter (\<lambda>n. key_of (snd n) \<noteq> key_of e) l = l1 @ l2"
    unfolding l by (rule filter_key_split [OF e1 e2])
  ultimately show ?thesis
    by (simp add: erase_iter_def de some)
qed

lemma move_construct_mk:
  "move_construct key_of t (mk key_of this l)
   = Inr (mk key_of t l, (mk key_of this l)\<lparr>map_f := Map.empty, list_f := []\<rparr>)"
proof (cases l)
  case Nil
  then show ?thesis
    by (simp add: move_construct_def mk_def before_begin_def)
next
  case (Cons x l')
  obtain a e where x: "x = (a, e)" by (cases x)
  show ?thesis
    by (simp add: move_construct_def mk_def before_begin_def Cons x front_def map_at_assign_def)
qed

lemma clear_mk: "clear this c = mk key_of this []"
  by (simp add: clear_def mk_def before_begin_def)

lemma init_mk: "init this = mk key_of this []"
  by (simp add: init_def mk_def before_begin_def)

lemma sane_Nil [simp]: "sane key_of h []"
  by (simp add: sane_def)

lemma sane_filter: "sane key_of h l \<Longrightarrow> sane key_of h (filter P l)"
  by (auto simp: sane_def distinct_map_filter)

lemma sane_snoc:
  "sane key_of h l \<Longrightarrow> key_of v \<notin> (\<lambda>n. key_of (snd n)) ` set l \<Longrightarrow>
   sane key_of (Suc h) (l @ [(h, v)])"
  by (fastforce simp: sane_def)

lemma sane_Cons:
  "sane key_of h l \<Longrightarrow> key_of v \<notin> (\<lambda>n. key_of (snd n)) ` set l \<Longrightarrow>
   sane key_of (Suc h) ((h, v) # l)"
  by (fastforce simp: sane_def)

lemma list_f_mk [simp]: "list_f (mk key_of this l) = l"
  by (simp add: mk_def)

lemma iterate_from_suffix:
  "distinct (map fst (pre @ suf)) \<Longrightarrow>
   iterate_from this (pre @ suf) (list_begin suf) acc = Some (Inr (acc @ map snd suf))"
proof (induction suf arbitrary: pre acc)
  case Nil
  show ?case by (subst iterate_from.simps) simp
next
  case (Cons x suf)
  obtain a e where x: "x = (a, e)" by (cases x)
  from Cons.prems have a: "a \<notin> fst ` set pre" and d: "distinct (map fst ((pre @ [x]) @ suf))"
    by (auto simp: x)
  have de: "deref (pre @ (a, e) # suf) (Node a) = Inr e"
    by (rule deref_split [OF a])
  have inc: "incr this (pre @ (a, e) # suf) (Node a) = Inr (list_begin suf)"
    by (simp add: incr_def after_node_split [OF a])
  have "iterate_from this (pre @ x # suf) (list_begin (x # suf)) acc
        = iterate_from this ((pre @ [x]) @ suf) (list_begin suf) (acc @ [e])"
    by (subst iterate_from.simps) (simp add: x de inc)
  also have "\<dots> = Some (Inr ((acc @ [e]) @ map snd suf))"
    by (rule Cons.IH [OF d])
  finally show ?case by (simp add: x)
qed

lemma elements_mk:
  "distinct (map fst l) \<Longrightarrow> elements this (mk key_of this l) = Some (Inr (map snd l))"
  using iterate_from_suffix [of "[]" l this "[]"] by (simp add: elements_def)

lemma find_f_split:
  assumes "distinct (map fst (l1 @ (a, e) # l2))"
    "key_of e \<notin> (\<lambda>n. key_of (snd n)) ` set l1"
  shows "find_f this (mk key_of this (l1 @ (a, e) # l2)) (key_of e) = Inr (Node a)"
  using index_of_split [OF assms(2), of "BeforeBegin this" a l2] incr_tail_of [OF assms(1), of this]
  by (simp add: find_f_def mk_def)

lemma find_f_absent:
  assumes "k \<notin> (\<lambda>n. key_of (snd n)) ` set l"
  shows "find_f this (mk key_of this l) k = Inr End"
proof -
  have "index_of key_of (BeforeBegin this) l k = None"
    using assms by (simp add: index_of_absent)
  then show ?thesis
    by (simp add: find_f_def mk_def)
qed

lemma emplace_back_mk:
  assumes "sane key_of h l"
  shows "\<exists>it. emplace_back key_of this v (mk key_of this l, h)
         = (if key_of v \<in> keys_of key_of l then Inr ((it, False), mk key_of this l, h)
            else Inr ((Node h, True), mk key_of this (l @ [(h, v)]), Suc h))"
proof (cases "key_of v \<in> keys_of key_of l")
  case False
  with assms show ?thesis
    by (simp add: emplace_back_absent keys_of_def sane_def)
next
  case True
  then obtain a e where ae: "(a, e) \<in> set l" and ke: "key_of v = key_of e"
    by (auto simp: keys_of_def)
  from assms have dk: "distinct (map (\<lambda>n. key_of (snd n)) l)" and da: "distinct (map fst l)"
    by (simp_all add: sane_def)
  from dk ae obtain l1 l2 where l: "l = l1 @ (a, e) # l2"
    and e1: "key_of e \<notin> (\<lambda>n. key_of (snd n)) ` set l1"
    and e2: "key_of e \<notin> (\<lambda>n. key_of (snd n)) ` set l2"
    by (rule sane_split_key)
  from emplace_back_present [OF da [unfolded l] e1 ke, of this h] True
  show ?thesis by (auto simp: l)
qed

lemma emplace_front_mk:
  assumes "sane key_of h l"
  shows "\<exists>it. emplace_front key_of this v (mk key_of this l, h)
         = (if key_of v \<in> keys_of key_of l then Inr ((it, False), mk key_of this l, h)
            else Inr ((Node h, True), mk key_of this ((h, v) # l), Suc h))"
proof (cases "key_of v \<in> keys_of key_of l")
  case False
  with assms show ?thesis
    by (simp add: emplace_front_absent keys_of_def sane_def)
next
  case True
  then obtain a e where ae: "(a, e) \<in> set l" and ke: "key_of v = key_of e"
    by (auto simp: keys_of_def)
  from assms have dk: "distinct (map (\<lambda>n. key_of (snd n)) l)" and da: "distinct (map fst l)"
    by (simp_all add: sane_def)
  from dk ae obtain l1 l2 where l: "l = l1 @ (a, e) # l2"
    and e1: "key_of e \<notin> (\<lambda>n. key_of (snd n)) ` set l1"
    and e2: "key_of e \<notin> (\<lambda>n. key_of (snd n)) ` set l2"
    by (rule sane_split_key)
  from emplace_front_present [OF da [unfolded l] e1 ke, of this h] True
  show ?thesis by (auto simp: l)
qed

lemma erase_iter_mk_gen:
  assumes "sane key_of h l"
  shows "erase_iter key_of this it (mk key_of this l)
         = (case deref l it of
              Inl e \<Rightarrow> Inl e
            | Inr v \<Rightarrow> Inr (mk key_of this (filter (\<lambda>n. key_of (snd n) \<noteq> key_of v) l)))"
proof (cases "deref l it")
  case (Inl e)
  then show ?thesis by (simp add: erase_iter_def)
next
  case (Inr v)
  then obtain a where it: "it = Node a" and av: "map_of l a = Some v"
    by (auto simp: deref_def split: pos.splits option.splits)
  from av have "(a, v) \<in> set l" by (rule map_of_SomeD)
  from erase_iter_mk [OF assms this, of this] Inr show ?thesis
    by (simp add: it)
qed

lemma step_mk:
  assumes "sane key_of h l"
  shows "step key_of x (this, mk key_of this l, h)
         = (case astep key_of x (l, h) of
              Inl e \<Rightarrow> Inl e
            | Inr (l', h') \<Rightarrow> Inr (new_this x this, mk key_of (new_this x this) l', h'))"
proof (cases x)
  case (Emplace v)
  from emplace_back_mk [OF assms, of this v] show ?thesis
    by (auto simp: Emplace emplace_def)
next
  case (EmplaceBack v)
  from emplace_back_mk [OF assms, of this v] show ?thesis
    by (auto simp: EmplaceBack)
next
  case (EmplaceFront v)
  from emplace_front_mk [OF assms, of this v] show ?thesis
    by (auto simp: EmplaceFront)
next
  case (EraseKey k)
  then show ?thesis by (simp add: erase_key_mk [OF assms])
next
  case (EraseIter it)
  then show ?thesis
    by (simp add: erase_iter_mk_gen [OF assms] split: sum.splits)
next
  case Clear
  then show ?thesis by (simp add: clear_mk [of this _ key_of])
next
  case (MoveTo t)
  then show ?thesis by (simp add: move_construct_mk)
qed

lemma astep_sane:
  assumes "sane key_of h l" "astep key_of x (l, h) = Inr (l', h')"
  shows "sane key_of h' l' \<and> h \<le> h'"
proof (cases x)
  case (Emplace v)
  with assms show ?thesis
    by (auto simp: keys_of_def sane_snoc split: if_splits)
next
  case (EmplaceBack v)
  with assms show ?thesis
    by (auto simp: keys_of_def sane_snoc split: if_splits)
next
  case (EmplaceFront v)
  with assms show ?thesis
    by (auto simp: keys_of_def sane_Cons split: if_splits)
next
  case (EraseKey k)
  with assms show ?thesis by (auto simp: sane_filter)
next
  case (EraseIter it)
  with assms show ?thesis by (auto simp: sane_filter split: sum.splits)
next
  case Clear
  with assms show ?thesis by auto
next
  case (MoveTo t)
  with assms show ?thesis by auto
qed


lemma run_mk:
  assumes "sane key_of h l"
  shows "run key_of ops (this, mk key_of this l, h)
         = (case arun key_of ops (l, h) of
              Inl e \<Rightarrow> Inl e
            | Inr (l', h') \<Rightarrow>
                Inr (fold new_this ops this, mk key_of (fold new_this ops this) l', h'))"
  using assms
proof (induction ops arbitrary: this l h)
  case Nil
  show ?case by simp
next
  case (Cons x ops)
  show ?case
  proof (cases "astep key_of x (l, h)")
    case (Inl e)
    then show ?thesis
      by (simp add: step_mk [OF Cons.prems])
  next
    case (Inr s')
    obtain l' h' where s': "s' = (l', h')" by (cases s')
    from astep_sane [OF Cons.prems Inr [unfolded s']] have "sane key_of h' l'" ..
    from Cons.IH [OF this, of "new_this x this"] show ?thesis
      by (simp add: step_mk [OF Cons.prems] Inr s' cong: sum.case_cong)
  qed
qed

lemma arun_sane:
  "sane key_of h l \<Longrightarrow> arun key_of ops (l, h) = Inr (l', h') \<Longrightarrow> sane key_of h' l'"
proof (induction ops arbitrary: l h)
  case Nil
  then show ?case by simp
next
  case (Cons x ops)
  from Cons.prems(2) obtain l1 h1 where 1: "astep key_of x (l, h) = Inr (l1, h1)"
    and 2: "arun key_of ops (l1, h1) = Inr (l', h')"
    by (auto split: sum.splits)
  from astep_sane [OF Cons.prems(1) 1] have "sane key_of h1 l1" ..
  from Cons.IH [OF this 2] show ?case .
qed

lemma run_reach:
  assumes "run key_of ops (t0, init t0, h0) = Inr (this, c, h)"
  shows "c = mk key_of this (list_f c) \<and> sane key_of h (list_f c)"
proof -
  have s0: "sane key_of h0 []" by simp
  from assms obtain l' where a: "arun key_of ops ([], h0) = Inr (l', h)"
    and c: "c = mk key_of this l'"
    by (auto simp: init_mk [of t0 key_of] run_mk [OF s0] split: sum.splits)
  from arun_sane [OF s0 a] c show ?thesis by simp
qed

lemma deref_error: "deref l it = Inl e \<Longrightarrow> e = UndefinedBehaviour"
  by (auto simp: deref_def split: pos.splits option.splits)

lemma astep_error:
  "astep key_of x s = Inl e \<Longrightarrow> e = UndefinedBehaviour \<and> (\<exists>it. x = EraseIter it)"
  by (cases x; cases s) (auto split: if_splits sum.splits dest: deref_error)

lemma arun_error:
  "arun key_of ops s = Inl e \<Longrightarrow> e = UndefinedBehaviour \<and> (\<exists>it. EraseIter it \<in> set ops)"
proof (induction ops arbitrary: s)
  case Nil
  then show ?case by simp
next
  case (Cons x ops)
  show ?case
  proof (cases "astep key_of x s")
    case (Inl e')
    with Cons.prems astep_error [OF Inl] show ?thesis by auto
  next
    case (Inr s')
    with Cons.prems have "arun key_of ops s' = Inl e" by simp
    from Cons.IH [OF this] show ?thesis by auto
  qed
qed

text \<open>
  A sequence of public operations on a default-constructed container can fail in one way
  only: erase by iterator was given an iterator that is not a node of the container.
\<close>

lemma run_error:
  assumes "run key_of ops (t0, init t0, h0) = Inl e"
  shows "e = UndefinedBehaviour \<and> (\<exists>it. EraseIter it \<in> set ops)"
proof -
  have s0: "sane key_of h0 []" by simp
  from assms have "arun key_of ops ([], h0) = Inl e"
    by (simp add: init_mk [of t0 key_of] run_mk [OF s0] split: sum.splits prod.splits)
  then show ?thesis by (rule arun_error)
qed

lemmas eval_defs = emplace_def emplace_back_def emplace_front_def erase_key_def erase_iter_def
  erase_entry_def insert_after_def erase_after_def incr_def deref_def front_def map_emplace_def
  map_at_assign_def init_def before_begin_def list_begin_def clear_def move_construct_def
  empty_f_def

lemma arun_emplace_calls:
  assumes "sane key_of h l" "distinct (map (\<lambda>x. key_of (snd x)) calls)"
    "(\<lambda>x. key_of (snd x)) ` set calls \<inter> keys_of key_of l = {}"
  shows "\<exists>l'. arun key_of (map (\<lambda>(b, v). if b then Emplace v else EmplaceBack v) calls) (l, h)
              = Inr (l @ l', h + length calls) \<and> map snd l' = map snd calls"
  using assms
proof (induction calls arbitrary: l h)
  case Nil
  then show ?case by simp
next
  case (Cons x calls)
  obtain b v where x: "x = (b, v)" by (cases x)
  from Cons.prems have nk: "key_of v \<notin> keys_of key_of l"
    by (auto simp: x)
  then have s1: "sane key_of (Suc h) (l @ [(h, v)])"
    using Cons.prems(1) by (simp add: sane_snoc keys_of_def)
  have d1: "distinct (map (\<lambda>x. key_of (snd x)) calls)"
    using Cons.prems(2) by simp
  have i1: "(\<lambda>x. key_of (snd x)) ` set calls \<inter> keys_of key_of (l @ [(h, v)]) = {}"
    using Cons.prems(2,3) by (auto simp: x keys_of_def)
  from Cons.IH [OF s1 d1 i1] obtain l' where
    "arun key_of (map (\<lambda>(b, v). if b then Emplace v else EmplaceBack v) calls) (l @ [(h, v)], Suc h)
     = Inr ((l @ [(h, v)]) @ l', Suc h + length calls)" and "map snd l' = map snd calls"
    by blast
  then show ?case
    using nk by (intro exI [of _ "(h, v) # l'"]) (simp add: x)
qed

section \<open>The claims\<close>

text \<open>
  The engine is stated over \<open>key_of\<close>: the set facade is the instance \<open>\<lambda>v. v\<close> (the identity
  of an element is the element), the map facade the instance \<open>fst\<close> (the identity is the
  key). A container state of a claim is a state reached from a default-constructed container
  by public operations: \<open>run key_of ops (t0, init t0, h0) = Inr (this, c, h)\<close>.
\<close>

text \<open>
  C1 (order preservation). A sequence of \<^verbatim>\<open>emplace_back\<close> and \<^verbatim>\<open>emplace\<close> calls (the flag of
  a call tells which of the two names is used) with pairwise distinct identities, starting
  from an empty container, succeeds, and iterating the result from \<^verbatim>\<open>begin()\<close> to \<^verbatim>\<open>end()\<close>
  yields exactly the inserted elements in the order of insertion.
\<close>

theorem C1_order_preservation:
  assumes "distinct (map (\<lambda>x. key_of (snd x)) calls)"
  shows "\<exists>c h. run key_of
                 (map (\<lambda>(via_emplace, v). if via_emplace then Emplace v else EmplaceBack v) calls)
                 (this, init this, h0) = Inr (this, c, h)
               \<and> elements this c = Some (Inr (map snd calls))"
proof -
  have s0: "sane key_of h0 []" by simp
  from arun_emplace_calls [OF s0 assms] obtain l' where
    a: "arun key_of (map (\<lambda>(b, v). if b then Emplace v else EmplaceBack v) calls) ([], h0)
        = Inr (l', h0 + length calls)" and m: "map snd l' = map snd calls"
    by (auto simp: keys_of_def)
  from arun_sane [OF s0 a] have "distinct (map fst l')"
    by (simp add: sane_def)
  then have e: "elements this (mk key_of this l') = Some (Inr (map snd calls))"
    by (simp add: elements_mk m)
  have f: "fold new_this (map (\<lambda>(b, v). if b then Emplace v else EmplaceBack v) calls) this = this"
    by (induction calls) (auto split: prod.splits)
  show ?thesis
    using e by (simp add: init_mk [of this key_of] run_mk [OF s0] a f)
qed

theorem C1_order_preservation_witness:
  "distinct (map (\<lambda>x. fst (snd x)) [(False, (3::nat, 30::nat)), (True, (1, 10)), (False, (2, 20))])
   \<and> run fst [EmplaceBack (3::nat, 30::nat), Emplace (1, 10), EmplaceBack (2, 20)] (0, init 0, 0)
       = Inr (0, \<lparr>map_f = [3 \<mapsto> BeforeBegin 0, 1 \<mapsto> Node 0, 2 \<mapsto> Node 1],
                  list_f = [(0, (3, 30)), (1, (1, 10)), (2, (2, 20))], list_back = Node 2\<rparr>, 3)
   \<and> elements 0 \<lparr>map_f = [3::nat \<mapsto> BeforeBegin 0, 1 \<mapsto> Node 0, 2 \<mapsto> Node 1],
                   list_f = [(0, (3::nat, 30::nat)), (1, (1, 10)), (2, (2, 20))], list_back = Node 2\<rparr>
       = Some (Inr [(3, 30), (1, 10), (2, 20)])"
proof -
  have h: "distinct (map (\<lambda>x. fst (snd x))
             [(False, (3::nat, 30::nat)), (True, (1, 10)), (False, (2, 20))])"
    by simp
  have r: "run fst [EmplaceBack (3::nat, 30::nat), Emplace (1, 10), EmplaceBack (2, 20)] (0, init 0, 0)
       = Inr (0, \<lparr>map_f = [3 \<mapsto> BeforeBegin 0, 1 \<mapsto> Node 0, 2 \<mapsto> Node 1],
                  list_f = [(0, (3, 30)), (1, (1, 10)), (2, (2, 20))], list_back = Node 2\<rparr>, 3)"
    by (simp add: eval_defs)
  from C1_order_preservation [OF h, of 0 0] obtain c k where
    "run fst [EmplaceBack (3::nat, 30::nat), Emplace (1, 10), EmplaceBack (2, 20)] (0, init 0, 0)
     = Inr (0, c, k)" and e: "elements 0 c = Some (Inr [(3, 30), (1, 10), (2, 20)])"
    by auto
  with r have "c = \<lparr>map_f = [3 \<mapsto> BeforeBegin 0, 1 \<mapsto> Node 0, 2 \<mapsto> Node 1],
                  list_f = [(0, (3, 30)), (1, (1, 10)), (2, (2, 20))], list_back = Node 2\<rparr>"
    by simp
  with e h r show ?thesis by simp
qed

lemma I2_from_mk:
  assumes "distinct (map fst (pre @ suf))" "distinct (map (\<lambda>n. key_of (snd n)) (pre @ suf))"
  shows "I2_from key_of this (mk key_of this (pre @ suf)) (tail_of (BeforeBegin this) pre) suf"
  using assms
proof (induction suf arbitrary: pre)
  case Nil
  show ?case by simp
next
  case (Cons x suf)
  obtain a e where x: "x = (a, e)" by (cases x)
  have e1: "key_of e \<notin> (\<lambda>n. key_of (snd n)) ` set pre"
    using Cons.prems(2) by (auto simp: x)
  have 1: "map_f (mk key_of this (pre @ x # suf)) (key_of e) = Some (tail_of (BeforeBegin this) pre)"
    using index_of_split [OF e1] by (simp add: mk_def x)
  have 2: "incr this (list_f (mk key_of this (pre @ x # suf))) (tail_of (BeforeBegin this) pre)
           = Inr (Node a)"
    using incr_tail_of [OF Cons.prems(1) [unfolded x]] by (simp add: x)
  have "I2_from key_of this (mk key_of this ((pre @ [x]) @ suf))
          (tail_of (BeforeBegin this) (pre @ [x])) suf"
    using Cons.prems by (intro Cons.IH) simp_all
  then have 3: "I2_from key_of this (mk key_of this (pre @ x # suf)) (Node a) suf"
    by (simp add: x)
  from 1 2 3 show ?case by (simp add: x)
qed

lemma I2_mk: "sane key_of h l \<Longrightarrow> I2 key_of this (mk key_of this l)"
  using I2_from_mk [of "[]" l key_of this] by (simp add: I2_def sane_def)

lemma bij_mk:
  assumes "sane key_of h l"
  shows "bij_betw (\<lambda>n. key_of (snd n)) (set l) (dom (map_f (mk key_of this l)))"
proof -
  from assms have "inj_on (\<lambda>n. key_of (snd n)) (set l)"
    by (simp add: sane_def distinct_map)
  then show ?thesis
    by (simp add: bij_betw_def mk_def dom_index_of)
qed

lemma tail_of_sentinel: "tail_of (BeforeBegin this) l = BeforeBegin this \<longleftrightarrow> l = []"
  by (cases l rule: rev_cases) (auto simp: tail_of_def)

lemma I3_code_mk: "I3_code this (mk key_of this l)"
  by (simp add: I3_code_def mk_def tail_of_def last_pos_def)

text \<open>
  C2 (predecessor invariant and bijection). In every state reached from an empty container
  by public operations (\<^verbatim>\<open>emplace\<close>, \<^verbatim>\<open>emplace_back\<close>, \<^verbatim>\<open>emplace_front\<close>, erase by identity or
  by iterator, \<^verbatim>\<open>clear\<close>, move construction), the index entry of every node's identity is the
  position before the node and stepping it once yields the node (I2), the identities of the
  nodes are in bijection with the index entries, and \<^verbatim>\<open>size()\<close> is the number of nodes.
\<close>

theorem C2_predecessor_invariant:
  assumes "run key_of ops (t0, init t0, h0) = Inr (this, c, h)"
  shows "I2 key_of this c
       \<and> bij_betw (\<lambda>n. key_of (snd n)) (set (list_f c)) (dom (map_f c))
       \<and> size_f c = length (list_f c)"
proof -
  from run_reach [OF assms] have c: "c = mk key_of this (list_f c)"
    and s: "sane key_of h (list_f c)"
    by simp_all
  from s have "distinct (map (\<lambda>n. key_of (snd n)) (list_f c))"
    by (simp add: sane_def)
  then have "size_f (mk key_of this (list_f c)) = length (list_f c)"
    by (rule size_f_mk)
  with I2_mk [OF s, of this] bij_mk [OF s, of this] c show ?thesis
    by simp
qed

theorem C2_predecessor_invariant_witness:
  "run (\<lambda>v. v) [EmplaceBack (3::nat), Emplace 1, EmplaceBack 2, EraseKey 1, EmplaceFront 7,
                 EraseIter (Node 0), MoveTo 5, EmplaceBack 9, Clear, EmplaceBack 4, EmplaceFront 6]
       (0, init 0, 0)
     = Inr (5, \<lparr>map_f = [6 \<mapsto> BeforeBegin 5, 4 \<mapsto> Node 6], list_f = [(6, 6), (5, 4)],
                 list_back = Node 5\<rparr>, 7)
   \<and> I2 (\<lambda>v. v) 5 \<lparr>map_f = [6::nat \<mapsto> BeforeBegin 5, 4 \<mapsto> Node 6], list_f = [(6, 6::nat), (5, 4)],
                 list_back = Node 5\<rparr>
   \<and> bij_betw (\<lambda>n. snd n) (set [(6, 6::nat), (5::nat, 4)]) (dom [6::nat \<mapsto> BeforeBegin 5, 4 \<mapsto> Node 6])
   \<and> size_f \<lparr>map_f = [6::nat \<mapsto> BeforeBegin 5, 4 \<mapsto> Node 6], list_f = [(6, 6::nat), (5, 4)],
                 list_back = Node 5\<rparr> = 2"
proof -
  have r: "run (\<lambda>v. v) [EmplaceBack (3::nat), Emplace 1, EmplaceBack 2, EraseKey 1, EmplaceFront 7,
                 EraseIter (Node 0), MoveTo 5, EmplaceBack 9, Clear, EmplaceBack 4, EmplaceFront 6]
       (0, init 0, 0)
     = Inr (5, \<lparr>map_f = [6 \<mapsto> BeforeBegin 5, 4 \<mapsto> Node 6], list_f = [(6, 6), (5, 4)],
                 list_back = Node 5\<rparr>, 7)"
    by (simp add: eval_defs fun_eq_iff)
  from r C2_predecessor_invariant [OF r] show ?thesis by simp
qed

text \<open>
  The object a container was move-constructed from is not a reachable state of \<open>run\<close>, which
  goes on with the new container: the move leaves the source with an empty index and an
  empty list and does not touch its \<^verbatim>\<open>list_back\<close>.
\<close>

lemma move_construct_source:
  "move_construct key_of t c = Inr (c', other') \<Longrightarrow>
   map_f other' = Map.empty \<and> list_f other' = [] \<and> list_back other' = list_back c"
  by (auto simp: move_construct_def Let_def split: if_splits sum.splits)

text \<open>
  C3 as claimed (the tail is the predecessor of the last node) fails: after two appends the
  tail is the second node, while the predecessor of the last node is the first node.
\<close>

theorem C3_tail_counterexample:
  "run (\<lambda>v. v) [EmplaceBack (1::nat), EmplaceBack 2] (0, init 0, 0)
     = Inr (0, \<lparr>map_f = [1 \<mapsto> BeforeBegin 0, 2 \<mapsto> Node 0], list_f = [(0, 1), (1, 2)],
                 list_back = Node 1\<rparr>, 2)
   \<and> \<not> I3_spec 0 \<lparr>map_f = [1::nat \<mapsto> BeforeBegin 0, 2 \<mapsto> Node 0], list_f = [(0, 1::nat), (1, 2)],
                 list_back = Node 1\<rparr>"
  by (simp add: eval_defs I3_spec_def before_last_pos_def last_pos_def)

text \<open>
  C3, amended. After every public operation completes (\<^verbatim>\<open>emplace\<close>, \<^verbatim>\<open>emplace_back\<close>,
  \<^verbatim>\<open>emplace_front\<close>, erase by identity or by iterator, \<^verbatim>\<open>clear\<close>, move construction), in the
  container the operation leaves in use, which for a move construction is the newly
  constructed container and never the object moved from, the tail is the position of the
  last node itself (the position after which \<^verbatim>\<open>emplace_back\<close> inserts), and it is the
  before-begin position of that container exactly when the container is empty. The second
  part states the case of move construction on its own: the new container at any address
  \<open>t\<close> has its tail at its last node, and at its own before-begin position exactly when it is
  empty.
\<close>

theorem C3_tail_is_last_node:
  assumes "run key_of ops (t0, init t0, h0) = Inr (this, c, h)"
  shows "I3_code this c \<and> (list_back c = BeforeBegin this \<longleftrightarrow> empty_f c)
       \<and> (\<exists>c' other'. move_construct key_of t c = Inr (c', other')
              \<and> I3_code t c' \<and> (list_back c' = BeforeBegin t \<longleftrightarrow> empty_f c'))"
proof -
  from run_reach [OF assms] have c: "c = mk key_of this (list_f c)"
    by simp
  have i: "list_back (mk key_of u (list_f c)) = BeforeBegin u
        \<longleftrightarrow> empty_f (mk key_of u (list_f c))" for u
    by (simp add: mk_def tail_of_sentinel empty_f_def dom_index_of)
  have m: "move_construct key_of t c
           = Inr (mk key_of t (list_f c),
                  (mk key_of this (list_f c))\<lparr>map_f := Map.empty, list_f := []\<rparr>)"
    using move_construct_mk [of key_of t this "list_f c"] c by simp
  have 1: "I3_code this c \<and> (list_back c = BeforeBegin this \<longleftrightarrow> empty_f c)"
    using I3_code_mk [of this key_of "list_f c"] i [of this] c by simp
  have 2: "\<exists>c' other'. move_construct key_of t c = Inr (c', other')
              \<and> I3_code t c' \<and> (list_back c' = BeforeBegin t \<longleftrightarrow> empty_f c')"
    using m I3_code_mk [of t key_of "list_f c"] i [of t] by blast
  from 1 2 show ?thesis by blast
qed

theorem C3_tail_is_last_node_witness:
  "run (\<lambda>v. v) [EmplaceBack (1::nat), EmplaceBack 2, EraseKey 2, EmplaceFront 3, MoveTo 4,
                 EmplaceBack 5] (0, init 0, 0)
     = Inr (4, \<lparr>map_f = [3 \<mapsto> BeforeBegin 4, 1 \<mapsto> Node 2, 5 \<mapsto> Node 0],
                 list_f = [(2, 3), (0, 1), (3, 5)], list_back = Node 3\<rparr>, 4)
   \<and> I3_code 4 \<lparr>map_f = [3::nat \<mapsto> BeforeBegin 4, 1 \<mapsto> Node 2, 5 \<mapsto> Node 0],
                 list_f = [(2, 3::nat), (0, 1), (3, 5)], list_back = Node 3\<rparr>
   \<and> (list_back \<lparr>map_f = [3::nat \<mapsto> BeforeBegin 4, 1 \<mapsto> Node 2, 5 \<mapsto> Node 0],
                 list_f = [(2, 3::nat), (0, 1), (3, 5)], list_back = Node 3\<rparr> = BeforeBegin 4
        \<longleftrightarrow> empty_f \<lparr>map_f = [3::nat \<mapsto> BeforeBegin 4, 1 \<mapsto> Node 2, 5 \<mapsto> Node 0],
                 list_f = [(2, 3::nat), (0, 1), (3, 5)], list_back = Node 3\<rparr>)
   \<and> move_construct (\<lambda>v. v) 9
         \<lparr>map_f = [3::nat \<mapsto> BeforeBegin 4, 1 \<mapsto> Node 2, 5 \<mapsto> Node 0],
            list_f = [(2, 3::nat), (0, 1), (3, 5)], list_back = Node 3\<rparr>
       = Inr (\<lparr>map_f = [3::nat \<mapsto> BeforeBegin 9, 1 \<mapsto> Node 2, 5 \<mapsto> Node 0],
                list_f = [(2, 3::nat), (0, 1), (3, 5)], list_back = Node 3\<rparr>,
              \<lparr>map_f = Map.empty, list_f = [], list_back = Node 3\<rparr>)
   \<and> I3_code 9 \<lparr>map_f = [3::nat \<mapsto> BeforeBegin 9, 1 \<mapsto> Node 2, 5 \<mapsto> Node 0],
                list_f = [(2, 3::nat), (0, 1), (3, 5)], list_back = Node 3\<rparr>"
proof -
  have r: "run (\<lambda>v. v) [EmplaceBack (1::nat), EmplaceBack 2, EraseKey 2, EmplaceFront 3, MoveTo 4,
                 EmplaceBack 5] (0, init 0, 0)
     = Inr (4, \<lparr>map_f = [3 \<mapsto> BeforeBegin 4, 1 \<mapsto> Node 2, 5 \<mapsto> Node 0],
                 list_f = [(2, 3), (0, 1), (3, 5)], list_back = Node 3\<rparr>, 4)"
    by (simp add: eval_defs fun_eq_iff)
  have m: "move_construct (\<lambda>v. v) 9
         \<lparr>map_f = [3::nat \<mapsto> BeforeBegin 4, 1 \<mapsto> Node 2, 5 \<mapsto> Node 0],
            list_f = [(2, 3::nat), (0, 1), (3, 5)], list_back = Node 3\<rparr>
       = Inr (\<lparr>map_f = [3::nat \<mapsto> BeforeBegin 9, 1 \<mapsto> Node 2, 5 \<mapsto> Node 0],
                list_f = [(2, 3::nat), (0, 1), (3, 5)], list_back = Node 3\<rparr>,
              \<lparr>map_f = Map.empty, list_f = [], list_back = Node 3\<rparr>)"
    by (simp add: eval_defs fun_eq_iff)
  from C3_tail_is_last_node [OF r, of 9] m
  have "I3_code 4 \<lparr>map_f = [3::nat \<mapsto> BeforeBegin 4, 1 \<mapsto> Node 2, 5 \<mapsto> Node 0],
                 list_f = [(2, 3::nat), (0, 1), (3, 5)], list_back = Node 3\<rparr>
   \<and> (list_back \<lparr>map_f = [3::nat \<mapsto> BeforeBegin 4, 1 \<mapsto> Node 2, 5 \<mapsto> Node 0],
                 list_f = [(2, 3::nat), (0, 1), (3, 5)], list_back = Node 3\<rparr> = BeforeBegin 4
        \<longleftrightarrow> empty_f \<lparr>map_f = [3::nat \<mapsto> BeforeBegin 4, 1 \<mapsto> Node 2, 5 \<mapsto> Node 0],
                 list_f = [(2, 3::nat), (0, 1), (3, 5)], list_back = Node 3\<rparr>)
   \<and> I3_code 9 \<lparr>map_f = [3::nat \<mapsto> BeforeBegin 9, 1 \<mapsto> Node 2, 5 \<mapsto> Node 0],
                list_f = [(2, 3::nat), (0, 1), (3, 5)], list_back = Node 3\<rparr>"
    by auto
  with r m show ?thesis by simp
qed

lemma count_f_mk:
  "count_f (mk key_of this l) k = (if k \<in> keys_of key_of l then 1 else 0)"
proof (cases "k \<in> keys_of key_of l")
  case True
  then have "index_of key_of (BeforeBegin this) l k \<noteq> None"
    by (simp add: index_of_absent keys_of_def)
  with True show ?thesis
    by (auto simp: count_f_def mk_def)
next
  case False
  then have "index_of key_of (BeforeBegin this) l k = None"
    by (simp add: index_of_absent keys_of_def)
  with False show ?thesis
    by (simp add: count_f_def mk_def)
qed

lemma emplace_back_mk_present:
  assumes "sane key_of h l" "key_of v \<in> keys_of key_of l"
  shows "\<exists>a e. emplace_back key_of this v (mk key_of this l, h)
               = Inr ((Node a, False), mk key_of this l, h)
             \<and> find_f this (mk key_of this l) (key_of v) = Inr (Node a)
             \<and> deref l (Node a) = Inr e \<and> key_of e = key_of v"
proof -
  from assms(2) obtain a e where ae: "(a, e) \<in> set l" and ke: "key_of v = key_of e"
    by (auto simp: keys_of_def)
  from assms have dk: "distinct (map (\<lambda>n. key_of (snd n)) l)" and da: "distinct (map fst l)"
    by (simp_all add: sane_def)
  from dk ae obtain l1 l2 where l: "l = l1 @ (a, e) # l2"
    and e1: "key_of e \<notin> (\<lambda>n. key_of (snd n)) ` set l1"
    and e2: "key_of e \<notin> (\<lambda>n. key_of (snd n)) ` set l2"
    by (rule sane_split_key)
  have a1: "a \<notin> fst ` set l1"
    using da l by auto
  from emplace_back_present [OF da [unfolded l] e1 ke, of this h]
    find_f_split [OF da [unfolded l] e1, of this] deref_split [OF a1, of e l2]
  show ?thesis
    by (auto simp: l ke)
qed

lemma emplace_front_mk_present:
  assumes "sane key_of h l" "key_of v \<in> keys_of key_of l"
  shows "\<exists>a e. emplace_front key_of this v (mk key_of this l, h)
               = Inr ((Node a, False), mk key_of this l, h)
             \<and> find_f this (mk key_of this l) (key_of v) = Inr (Node a)
             \<and> deref l (Node a) = Inr e \<and> key_of e = key_of v"
proof -
  from assms(2) obtain a e where ae: "(a, e) \<in> set l" and ke: "key_of v = key_of e"
    by (auto simp: keys_of_def)
  from assms have dk: "distinct (map (\<lambda>n. key_of (snd n)) l)" and da: "distinct (map fst l)"
    by (simp_all add: sane_def)
  from dk ae obtain l1 l2 where l: "l = l1 @ (a, e) # l2"
    and e1: "key_of e \<notin> (\<lambda>n. key_of (snd n)) ` set l1"
    and e2: "key_of e \<notin> (\<lambda>n. key_of (snd n)) ` set l2"
    by (rule sane_split_key)
  have a1: "a \<notin> fst ` set l1"
    using da l by auto
  from emplace_front_present [OF da [unfolded l] e1 ke, of this h]
    find_f_split [OF da [unfolded l] e1, of this] deref_split [OF a1, of e l2]
  show ?thesis
    by (auto simp: l ke)
qed

lemma emplace_back_mk_absent:
  assumes "sane key_of h l" "key_of v \<notin> keys_of key_of l"
  shows "emplace_back key_of this v (mk key_of this l, h)
         = Inr ((Node h, True), mk key_of this (l @ [(h, v)]), Suc h)"
  using assms by (simp add: emplace_back_absent keys_of_def sane_def)

lemma keys_of_snoc [simp]: "keys_of key_of (l @ [(a, v)]) = insert (key_of v) (keys_of key_of l)"
  by (auto simp: keys_of_def)

text \<open>
  C4 (idempotent insert). In every reachable state in which the identity of \<open>v\<close> is present,
  \<^verbatim>\<open>emplace_back\<close> and \<^verbatim>\<open>emplace\<close> of \<open>v\<close> return the unchanged state (index, order list, tail; no
  node is allocated) together with the false flag and the iterator of the existing node with
  that identity, which is the iterator \<^verbatim>\<open>find\<close> returns. Inserting the same element twice in any
  reachable state makes the second call such a no-op, returning the iterator of the first.
\<close>

theorem C4_idempotent_insert:
  assumes "run key_of ops (t0, init t0, h0) = Inr (this, c, h)"
  shows "(0 < count_f c (key_of v) \<longrightarrow>
            (\<exists>it e. emplace_back key_of this v (c, h) = Inr ((it, False), c, h)
                   \<and> emplace key_of this v (c, h) = Inr ((it, False), c, h)
                   \<and> find_f this c (key_of v) = Inr it
                   \<and> deref (list_f c) it = Inr e \<and> key_of e = key_of v))
       \<and> (\<exists>it inserted c1 h1.
             emplace_back key_of this v (c, h) = Inr ((it, inserted), c1, h1)
           \<and> emplace_back key_of this v (c1, h1) = Inr ((it, False), c1, h1))"
proof -
  define l where "l = list_f c"
  from run_reach [OF assms] have c: "c = mk key_of this l" and s: "sane key_of h l"
    by (simp_all add: l_def)
  have present: "\<exists>a e. emplace_back key_of this v (c, h) = Inr ((Node a, False), c, h)
             \<and> find_f this c (key_of v) = Inr (Node a)
             \<and> deref l (Node a) = Inr e \<and> key_of e = key_of v"
    if "key_of v \<in> keys_of key_of l"
    using emplace_back_mk_present [OF s that, of this] by (simp add: c)
  have 1: "0 < count_f c (key_of v) \<longrightarrow>
            (\<exists>it e. emplace_back key_of this v (c, h) = Inr ((it, False), c, h)
                   \<and> emplace key_of this v (c, h) = Inr ((it, False), c, h)
                   \<and> find_f this c (key_of v) = Inr it
                   \<and> deref (list_f c) it = Inr e \<and> key_of e = key_of v)"
  proof
    assume "0 < count_f c (key_of v)"
    then have "key_of v \<in> keys_of key_of l"
      by (simp add: c count_f_mk split: if_splits)
    from present [OF this] show "\<exists>it e. emplace_back key_of this v (c, h) = Inr ((it, False), c, h)
                   \<and> emplace key_of this v (c, h) = Inr ((it, False), c, h)
                   \<and> find_f this c (key_of v) = Inr it
                   \<and> deref (list_f c) it = Inr e \<and> key_of e = key_of v"
      unfolding emplace_def l_def by blast
  qed
  have 2: "\<exists>it inserted c1 h1.
             emplace_back key_of this v (c, h) = Inr ((it, inserted), c1, h1)
           \<and> emplace_back key_of this v (c1, h1) = Inr ((it, False), c1, h1)"
  proof (cases "key_of v \<in> keys_of key_of l")
    case True
    from present [OF True] show ?thesis by blast
  next
    case False
    have s1: "sane key_of (Suc h) (l @ [(h, v)])"
      using s False by (simp add: sane_snoc keys_of_def)
    then have d1: "distinct (map fst (l @ (h, v) # []))"
      by (simp add: sane_def)
    have e1: "key_of v \<notin> (\<lambda>n. key_of (snd n)) ` set l"
      using False by (simp add: keys_of_def)
    from emplace_back_mk_absent [OF s False, of this]
      emplace_back_present [OF d1 e1 refl, of this "Suc h"]
    show ?thesis
      by (auto simp: c)
  qed
  from 1 2 show ?thesis ..
qed


theorem C4_idempotent_insert_witness:
  "run fst [EmplaceBack (1::nat, 10::nat), EmplaceBack (2, 20)] (0, init 0, 0)
     = Inr (0, \<lparr>map_f = [1 \<mapsto> BeforeBegin 0, 2 \<mapsto> Node 0],
                 list_f = [(0, (1, 10)), (1, (2, 20))], list_back = Node 1\<rparr>, 2)
   \<and> 0 < count_f \<lparr>map_f = [1::nat \<mapsto> BeforeBegin 0, 2 \<mapsto> Node 0],
                 list_f = [(0, (1::nat, 10::nat)), (1, (2, 20))], list_back = Node 1\<rparr> (fst (1::nat, 99::nat))
   \<and> emplace_back fst 0 (1, 99)
         (\<lparr>map_f = [1::nat \<mapsto> BeforeBegin 0, 2 \<mapsto> Node 0],
                 list_f = [(0, (1::nat, 10::nat)), (1, (2, 20))], list_back = Node 1\<rparr>, 2)
       = Inr ((Node 0, False), \<lparr>map_f = [1::nat \<mapsto> BeforeBegin 0, 2 \<mapsto> Node 0],
                 list_f = [(0, (1::nat, 10::nat)), (1, (2, 20))], list_back = Node 1\<rparr>, 2)"
proof -
  have r: "run fst [EmplaceBack (1::nat, 10::nat), EmplaceBack (2, 20)] (0, init 0, 0)
     = Inr (0, \<lparr>map_f = [1 \<mapsto> BeforeBegin 0, 2 \<mapsto> Node 0],
                 list_f = [(0, (1, 10)), (1, (2, 20))], list_back = Node 1\<rparr>, 2)"
    by (simp add: eval_defs)
  have p: "0 < count_f \<lparr>map_f = [1::nat \<mapsto> BeforeBegin 0, 2 \<mapsto> Node 0],
                 list_f = [(0, (1::nat, 10::nat)), (1, (2, 20))], list_back = Node 1\<rparr> (fst (1::nat, 99::nat))"
    by (simp add: count_f_def)
  have f: "find_f 0 \<lparr>map_f = [1::nat \<mapsto> BeforeBegin 0, 2 \<mapsto> Node 0],
                 list_f = [(0, (1::nat, 10::nat)), (1, (2, 20))], list_back = Node 1\<rparr> (fst (1::nat, 99::nat))
           = Inr (Node 0)"
    by (simp add: find_f_def incr_def list_begin_def)
  from C4_idempotent_insert [OF r, of "(1, 99)"] p f r show ?thesis
    by auto
qed

lemma filter_map_snd:
  "filter P (map snd l) = map snd (filter (\<lambda>n. P (snd n)) l)"
  by (induction l) auto

text \<open>
  C5 (erase, then reinsert). In every reachable state that contains the identity of \<open>x\<close>,
  erasing that identity and then \<^verbatim>\<open>emplace_back\<close> of \<open>x\<close> both succeed, the insertion reports
  true, and iteration then yields the former elements without the one of that identity, in
  their former order, followed by \<open>x\<close> as the last element.
\<close>

theorem C5_erase_reinsert:
  assumes "run key_of ops (t0, init t0, h0) = Inr (this, c, h)"
    and "0 < count_f c (key_of x)"
  shows "\<exists>es c1 it c2 h2.
           elements this c = Some (Inr es) \<and> key_of x \<in> key_of ` set es
         \<and> erase_key key_of this (key_of x) c = Inr c1
         \<and> emplace_back key_of this x (c1, h) = Inr ((it, True), c2, h2)
         \<and> elements this c2 = Some (Inr (filter (\<lambda>e. key_of e \<noteq> key_of x) es @ [x]))"
proof -
  define l where "l = list_f c"
  define l1 where "l1 = filter (\<lambda>n. key_of (snd n) \<noteq> key_of x) l"
  from run_reach [OF assms(1)] have c: "c = mk key_of this l" and s: "sane key_of h l"
    by (simp_all add: l_def)
  from assms(2) have "key_of x \<in> keys_of key_of l"
    by (simp add: c count_f_mk split: if_splits)
  then have 0: "key_of x \<in> key_of ` set (map snd l)"
    by (auto simp: keys_of_def)
  from s have 1: "elements this c = Some (Inr (map snd l))"
    by (simp add: c elements_mk sane_def)
  have 2: "erase_key key_of this (key_of x) c = Inr (mk key_of this l1)"
    by (simp add: c l1_def erase_key_mk [OF s])
  have s1: "sane key_of h l1"
    using s by (simp add: l1_def sane_filter)
  have nk: "key_of x \<notin> keys_of key_of l1"
    by (auto simp: l1_def keys_of_def)
  have 3: "emplace_back key_of this x (mk key_of this l1, h)
           = Inr ((Node h, True), mk key_of this (l1 @ [(h, x)]), Suc h)"
    by (rule emplace_back_mk_absent [OF s1 nk])
  have "sane key_of (Suc h) (l1 @ [(h, x)])"
    using s1 nk by (simp add: sane_snoc keys_of_def)
  then have "elements this (mk key_of this (l1 @ [(h, x)])) = Some (Inr (map snd (l1 @ [(h, x)])))"
    by (simp add: elements_mk sane_def)
  then have 4: "elements this (mk key_of this (l1 @ [(h, x)]))
                = Some (Inr (filter (\<lambda>e. key_of e \<noteq> key_of x) (map snd l) @ [x]))"
    by (simp add: l1_def filter_map_snd)
  from 0 1 2 3 4 show ?thesis by blast
qed

theorem C5_erase_reinsert_witness:
  "run (\<lambda>v. v) [EmplaceBack (1::nat), EmplaceBack 2, EmplaceBack 3] (0, init 0, 0)
     = Inr (0, \<lparr>map_f = [1 \<mapsto> BeforeBegin 0, 2 \<mapsto> Node 0, 3 \<mapsto> Node 1],
                 list_f = [(0, 1), (1, 2), (2, 3)], list_back = Node 2\<rparr>, 3)
   \<and> 0 < count_f \<lparr>map_f = [1::nat \<mapsto> BeforeBegin 0, 2 \<mapsto> Node 0, 3 \<mapsto> Node 1],
                 list_f = [(0, 1::nat), (1, 2), (2, 3)], list_back = Node 2\<rparr> 1
   \<and> (\<exists>c1 it c2 h2.
         erase_key (\<lambda>v. v) 0 1 \<lparr>map_f = [1::nat \<mapsto> BeforeBegin 0, 2 \<mapsto> Node 0, 3 \<mapsto> Node 1],
                 list_f = [(0, 1::nat), (1, 2), (2, 3)], list_back = Node 2\<rparr> = Inr c1
       \<and> emplace_back (\<lambda>v. v) 0 1 (c1, 3) = Inr ((it, True), c2, h2)
       \<and> elements 0 c2 = Some (Inr [2, 3, 1]))"
proof -
  have r: "run (\<lambda>v. v) [EmplaceBack (1::nat), EmplaceBack 2, EmplaceBack 3] (0, init 0, 0)
     = Inr (0, \<lparr>map_f = [1 \<mapsto> BeforeBegin 0, 2 \<mapsto> Node 0, 3 \<mapsto> Node 1],
                 list_f = [(0, 1), (1, 2), (2, 3)], list_back = Node 2\<rparr>, 3)"
    by (simp add: eval_defs)
  have p: "0 < count_f \<lparr>map_f = [1::nat \<mapsto> BeforeBegin 0, 2 \<mapsto> Node 0, 3 \<mapsto> Node 1],
                 list_f = [(0, 1::nat), (1, 2), (2, 3)], list_back = Node 2\<rparr> 1"
    by (simp add: count_f_def)
  have e: "elements 0 \<lparr>map_f = [1::nat \<mapsto> BeforeBegin 0, 2 \<mapsto> Node 0, 3 \<mapsto> Node 1],
                 list_f = [(0, 1::nat), (1, 2), (2, 3)], list_back = Node 2\<rparr> = Some (Inr [1, 2, 3])"
    by (simp add: elements_def iterate_from.simps eval_defs)
  from C5_erase_reinsert [OF r p] e show ?thesis
    using r p by auto
qed


text \<open>
  C6 (erase of an absent identity). When the identity is not in the container
  (\<^verbatim>\<open>count\<close> is zero), erase by identity returns normally and the container state, that
  is index, order list and tail, is the one before the call.
\<close>

theorem C6_erase_absent_noop:
  "count_f c x = 0 \<Longrightarrow> erase_key key_of this x c = Inr c"
  by (simp add: count_f_def erase_key_def split: option.splits)

theorem C6_erase_absent_noop_witness:
  "count_f \<lparr>map_f = [1 \<mapsto> BeforeBegin 0], list_f = [(0, 1::nat)], list_back = Node 0\<rparr> (5::nat) = 0
   \<and> erase_key (\<lambda>v. v) 0 5
         \<lparr>map_f = [1 \<mapsto> BeforeBegin 0], list_f = [(0, 1::nat)], list_back = Node 0\<rparr>
       = Inr \<lparr>map_f = [1 \<mapsto> BeforeBegin 0], list_f = [(0, 1::nat)], list_back = Node 0\<rparr>"
proof -
  have h: "count_f \<lparr>map_f = [1 \<mapsto> BeforeBegin 0], list_f = [(0, 1::nat)], list_back = Node 0\<rparr>
             (5::nat) = 0"
    by (simp add: count_f_def)
  from h C6_erase_absent_noop [OF h, of "\<lambda>v. v" 0] show ?thesis by simp
qed

text \<open>
  C7 (\<^verbatim>\<open>emplace_front\<close>, set facade). In every reachable state: for an absent value the call
  succeeds with the true flag, the new node is the one after the before-begin position and
  holds the value, iteration yields the value followed by the former elements, the index
  entry of the formerly first element, which was the before-begin position, now is the new
  node, and the tail is the new node if the container was empty and unchanged otherwise. For
  a present value the state is unchanged and the iterator of the existing node is returned
  with the false flag.
\<close>

theorem C7_emplace_front:
  assumes "run (\<lambda>v. v) ops (t0, init t0, h0) = Inr (this, c, h)"
  shows "(count_f c v = 0 \<longrightarrow>
            (\<exists>es it c' h'.
                elements this c = Some (Inr es)
              \<and> emplace_front (\<lambda>v. v) this v (c, h) = Inr ((it, True), c', h')
              \<and> incr this (list_f c') (BeforeBegin this) = Inr it
              \<and> deref (list_f c') it = Inr v
              \<and> elements this c' = Some (Inr (v # es))
              \<and> map_f c' v = Some (BeforeBegin this)
              \<and> (\<forall>first. front (list_f c) = Inr first \<longrightarrow>
                    map_f c first = Some (BeforeBegin this) \<and> map_f c' first = Some it)
              \<and> list_back c' = (if empty_f c then it else list_back c)))
       \<and> (0 < count_f c v \<longrightarrow>
            (\<exists>it. emplace_front (\<lambda>v. v) this v (c, h) = Inr ((it, False), c, h)
                \<and> deref (list_f c) it = Inr v))"
proof -
  define l where "l = list_f c"
  from run_reach [OF assms] have c: "c = mk (\<lambda>v. v) this l" and s: "sane (\<lambda>v. v) h l"
    by (simp_all add: l_def)
  have 1: "\<exists>es it c' h'.
                elements this c = Some (Inr es)
              \<and> emplace_front (\<lambda>v. v) this v (c, h) = Inr ((it, True), c', h')
              \<and> incr this (list_f c') (BeforeBegin this) = Inr it
              \<and> deref (list_f c') it = Inr v
              \<and> elements this c' = Some (Inr (v # es))
              \<and> map_f c' v = Some (BeforeBegin this)
              \<and> (\<forall>first. front (list_f c) = Inr first \<longrightarrow>
                    map_f c first = Some (BeforeBegin this) \<and> map_f c' first = Some it)
              \<and> list_back c' = (if empty_f c then it else list_back c)"
    if "count_f c v = 0"
  proof -
    define c' where "c' = mk (\<lambda>v. v) this ((h, v) # l)"
    from that have nk: "v \<notin> keys_of (\<lambda>v. v) l"
      by (simp add: c count_f_mk split: if_splits)
    then have nk': "v \<notin> (\<lambda>n. snd n) ` set l"
      by (simp add: keys_of_def)
    have s': "sane (\<lambda>v. v) (Suc h) ((h, v) # l)"
      using s nk' by (simp add: sane_Cons)
    have a: "elements this c = Some (Inr (map snd l))"
      using s by (simp add: c elements_mk sane_def)
    have b: "emplace_front (\<lambda>v. v) this v (c, h) = Inr ((Node h, True), c', Suc h)"
      using emplace_front_absent [of "\<lambda>v. v" v l this h] nk' by (simp add: c c'_def)
    have d: "incr this (list_f c') (BeforeBegin this) = Inr (Node h)"
      by (simp add: c'_def incr_def)
    have e: "deref (list_f c') (Node h) = Inr v"
      by (simp add: c'_def deref_def)
    have f: "elements this c' = Some (Inr (v # map snd l))"
      using s' by (simp add: c'_def elements_mk sane_def)
    have g: "map_f c' v = Some (BeforeBegin this)"
      by (simp add: c'_def mk_def)
    have i: "\<forall>first. front (list_f c) = Inr first \<longrightarrow>
                    map_f c first = Some (BeforeBegin this) \<and> map_f c' first = Some (Node h)"
    proof (cases l)
      case Nil
      then show ?thesis by (simp add: c front_def)
    next
      case (Cons y l')
      obtain b w where y: "y = (b, w)" by (cases y)
      have "v \<noteq> w" using nk' Cons y by auto
      then show ?thesis
        by (simp add: c c'_def front_def Cons y mk_def)
    qed
    have j: "list_back c' = (if empty_f c then Node h else list_back c)"
      by (cases l) (auto simp: c c'_def mk_def empty_f_def)
    from a b d e f g i j show ?thesis by blast
  qed
  have 2: "\<exists>it. emplace_front (\<lambda>v. v) this v (c, h) = Inr ((it, False), c, h)
                \<and> deref (list_f c) it = Inr v"
    if "0 < count_f c v"
  proof -
    from that have "(\<lambda>v. v) v \<in> keys_of (\<lambda>v. v) l"
      by (simp add: c count_f_mk split: if_splits)
    from emplace_front_mk_present [OF s this, of this] show ?thesis
      by (auto simp: c)
  qed
  from 1 2 show ?thesis by blast
qed

theorem C7_emplace_front_witness:
  "run (\<lambda>v. v) [EmplaceBack (1::nat), EmplaceBack 3] (0, init 0, 0)
     = Inr (0, \<lparr>map_f = [1 \<mapsto> BeforeBegin 0, 3 \<mapsto> Node 0],
                 list_f = [(0, 1), (1, 3)], list_back = Node 1\<rparr>, 2)
   \<and> count_f \<lparr>map_f = [1::nat \<mapsto> BeforeBegin 0, 3 \<mapsto> Node 0],
                 list_f = [(0, 1::nat), (1, 3)], list_back = Node 1\<rparr> 4 = 0
   \<and> 0 < count_f \<lparr>map_f = [1::nat \<mapsto> BeforeBegin 0, 3 \<mapsto> Node 0],
                 list_f = [(0, 1::nat), (1, 3)], list_back = Node 1\<rparr> 3
   \<and> front [(0::nat, 1::nat), (1, 3)] = Inr 1
   \<and> emplace_front (\<lambda>v. v) 0 4
         (\<lparr>map_f = [1::nat \<mapsto> BeforeBegin 0, 3 \<mapsto> Node 0],
                 list_f = [(0, 1::nat), (1, 3)], list_back = Node 1\<rparr>, 2)
       = Inr ((Node 2, True),
              \<lparr>map_f = [1::nat \<mapsto> Node 2, 3 \<mapsto> Node 0, 4 \<mapsto> BeforeBegin 0],
                 list_f = [(2, 4), (0, 1::nat), (1, 3)], list_back = Node 1\<rparr>, 3)
   \<and> elements 0 \<lparr>map_f = [1::nat \<mapsto> Node 2, 3 \<mapsto> Node 0, 4 \<mapsto> BeforeBegin 0],
                 list_f = [(2, 4), (0, 1::nat), (1, 3)], list_back = Node 1\<rparr>
       = Some (Inr [4, 1, 3])
   \<and> emplace_front (\<lambda>v. v) 0 3
         (\<lparr>map_f = [1::nat \<mapsto> BeforeBegin 0, 3 \<mapsto> Node 0],
                 list_f = [(0, 1::nat), (1, 3)], list_back = Node 1\<rparr>, 2)
       = Inr ((Node 1, False),
              \<lparr>map_f = [1::nat \<mapsto> BeforeBegin 0, 3 \<mapsto> Node 0],
                 list_f = [(0, 1::nat), (1, 3)], list_back = Node 1\<rparr>, 2)"
proof -
  have r: "run (\<lambda>v. v) [EmplaceBack (1::nat), EmplaceBack 3] (0, init 0, 0)
     = Inr (0, \<lparr>map_f = [1 \<mapsto> BeforeBegin 0, 3 \<mapsto> Node 0],
                 list_f = [(0, 1), (1, 3)], list_back = Node 1\<rparr>, 2)"
    by (simp add: eval_defs)
  have a: "count_f \<lparr>map_f = [1::nat \<mapsto> BeforeBegin 0, 3 \<mapsto> Node 0],
                 list_f = [(0, 1::nat), (1, 3)], list_back = Node 1\<rparr> 4 = 0"
    and p: "0 < count_f \<lparr>map_f = [1::nat \<mapsto> BeforeBegin 0, 3 \<mapsto> Node 0],
                 list_f = [(0, 1::nat), (1, 3)], list_back = Node 1\<rparr> 3"
    and f: "front [(0::nat, 1::nat), (1, 3)] = Inr 1"
    by (simp_all add: count_f_def front_def)
  have e: "elements 0 \<lparr>map_f = [1::nat \<mapsto> BeforeBegin 0, 3 \<mapsto> Node 0],
                 list_f = [(0, 1::nat), (1, 3)], list_back = Node 1\<rparr> = Some (Inr [1, 3])"
    by (simp add: elements_def iterate_from.simps eval_defs)
  have x: "emplace_front (\<lambda>v. v) 0 4
         (\<lparr>map_f = [1::nat \<mapsto> BeforeBegin 0, 3 \<mapsto> Node 0],
                 list_f = [(0, 1::nat), (1, 3)], list_back = Node 1\<rparr>, 2)
       = Inr ((Node 2, True),
              \<lparr>map_f = [1::nat \<mapsto> Node 2, 3 \<mapsto> Node 0, 4 \<mapsto> BeforeBegin 0],
                 list_f = [(2, 4), (0, 1::nat), (1, 3)], list_back = Node 1\<rparr>, 3)"
    by (simp add: eval_defs fun_eq_iff)
  have y: "emplace_front (\<lambda>v. v) 0 3
         (\<lparr>map_f = [1::nat \<mapsto> BeforeBegin 0, 3 \<mapsto> Node 0],
                 list_f = [(0, 1::nat), (1, 3)], list_back = Node 1\<rparr>, 2)
       = Inr ((Node 1, False),
              \<lparr>map_f = [1::nat \<mapsto> BeforeBegin 0, 3 \<mapsto> Node 0],
                 list_f = [(0, 1::nat), (1, 3)], list_back = Node 1\<rparr>, 2)"
    by (simp add: eval_defs fun_eq_iff)
  from C7_emplace_front [OF r, of 4] a e x
  have "elements 0 \<lparr>map_f = [1::nat \<mapsto> Node 2, 3 \<mapsto> Node 0, 4 \<mapsto> BeforeBegin 0],
                 list_f = [(2, 4), (0, 1::nat), (1, 3)], list_back = Node 1\<rparr>
       = Some (Inr [4, 1, 3])"
    by auto
  with r a p f x y show ?thesis by simp
qed

lemma present_split:
  assumes "sane key_of h l" "k \<in> keys_of key_of l"
  obtains l1 a e l2 where "l = l1 @ (a, e) # l2" "key_of e = k"
    "k \<notin> (\<lambda>n. key_of (snd n)) ` set l1" "k \<notin> (\<lambda>n. key_of (snd n)) ` set l2"
    "a \<notin> fst ` set l1" "a \<notin> fst ` set l2"
proof -
  from assms(2) obtain a e where ae: "(a, e) \<in> set l" and ke: "k = key_of e"
    by (auto simp: keys_of_def)
  from assms have dk: "distinct (map (\<lambda>n. key_of (snd n)) l)" and da: "distinct (map fst l)"
    by (simp_all add: sane_def)
  from dk ae obtain l1 l2 where l: "l = l1 @ (a, e) # l2"
    and e1: "key_of e \<notin> (\<lambda>n. key_of (snd n)) ` set l1"
    and e2: "key_of e \<notin> (\<lambda>n. key_of (snd n)) ` set l2"
    by (rule sane_split_key)
  have "a \<notin> fst ` set l1" "a \<notin> fst ` set l2"
    using da l by auto
  with l ke e1 e2 show thesis
    by (intro that [of l1 a e l2]) simp_all
qed

lemma at_absent: "count_f c k = 0 \<Longrightarrow> at this c k = Inl OutOfRange"
  by (simp add: at_def count_f_def split: option.splits)

lemma at_split:
  assumes "distinct (map fst (l1 @ (a, (k, v)) # l2))" "k \<notin> (\<lambda>n. fst (snd n)) ` set l1"
  shows "at this (mk fst this (l1 @ (a, (k, v)) # l2)) k = Inr v"
proof -
  have 1: "map_f (mk fst this (l1 @ (a, (k, v)) # l2)) k = Some (tail_of (BeforeBegin this) l1)"
    using index_of_split [of fst "(k, v)" l1 "BeforeBegin this" a l2] assms(2)
    by (simp add: mk_def)
  have 2: "incr this (l1 @ (a, (k, v)) # l2) (tail_of (BeforeBegin this) l1) = Inr (Node a)"
    by (rule incr_tail_of [OF assms(1)])
  have "a \<notin> fst ` set l1"
    using assms(1) by auto
  then have 3: "deref (l1 @ (a, (k, v)) # l2) (Node a) = Inr (k, v)"
    by (rule deref_split)
  show ?thesis
    by (simp add: at_def 1 2 3)
qed

lemma store_mapped_split:
  assumes "a \<notin> fst ` set l1" "a \<notin> fst ` set l2"
  shows "store_mapped (mk fst this (l1 @ (a, (k, v)) # l2)) (Node a) x
         = Inr (mk fst this (l1 @ (a, (k, x)) # l2))"
proof -
  have 1: "deref (l1 @ (a, (k, v)) # l2) (Node a) = Inr (k, v)"
    by (rule deref_split [OF assms(1)])
  have m1: "map (\<lambda>(a', kv'). if a' = a then (a', (fst kv', x)) else (a', kv')) l1 = l1"
    using assms(1) by (intro map_idI) (force split: prod.splits)
  have m2: "map (\<lambda>(a', kv'). if a' = a then (a', (fst kv', x)) else (a', kv')) l2 = l2"
    using assms(2) by (intro map_idI) (force split: prod.splits)
  have 2: "index_of fst (BeforeBegin this) (l1 @ (a, (k, x)) # l2)
           = index_of fst (BeforeBegin this) (l1 @ (a, (k, v)) # l2)"
    by (simp add: index_of_append)
  have 3: "tail_of (BeforeBegin this) (l1 @ (a, (k, x)) # l2)
           = tail_of (BeforeBegin this) (l1 @ (a, (k, v)) # l2)"
    by (simp add: tail_of_append)
  show ?thesis
    unfolding store_mapped_def
    by (simp add: 1 m1 m2) (simp add: mk_def 2 3)
qed

lemma subscript_absent:
  assumes "sane fst h l" "k \<notin> keys_of fst l"
  shows "subscript dflt this k (mk fst this l, h)
         = Inr (Node h, mk fst this (l @ [(h, (k, dflt))]), Suc h)"
proof -
  have 1: "find_f this (mk fst this l) k = Inr End"
    using assms(2) by (intro find_f_absent) (simp add: keys_of_def)
  have 2: "emplace fst this (k, dflt) (mk fst this l, h)
           = Inr ((Node h, True), mk fst this (l @ [(h, (k, dflt))]), Suc h)"
    using emplace_back_mk_absent [OF assms(1), of "(k, dflt)" this] assms(2)
    by (simp add: emplace_def)
  have "h \<notin> fst ` set l"
    using assms(1) by (auto simp: sane_def)
  then have 3: "deref (l @ [(h, (k, dflt))]) (Node h) = Inr (k, dflt)"
    by (rule deref_split)
  show ?thesis
    by (simp add: subscript_def 1 2 3)
qed

lemma subscript_split:
  assumes "distinct (map fst (l1 @ (a, (k, v)) # l2))" "k \<notin> (\<lambda>n. fst (snd n)) ` set l1"
  shows "subscript dflt this k (mk fst this (l1 @ (a, (k, v)) # l2), h)
         = Inr (Node a, mk fst this (l1 @ (a, (k, v)) # l2), h)"
proof -
  have 1: "find_f this (mk fst this (l1 @ (a, (k, v)) # l2)) k = Inr (Node a)"
    using find_f_split [OF assms(1), of fst this] assms(2) by simp
  have "a \<notin> fst ` set l1"
    using assms(1) by auto
  then have 3: "deref (l1 @ (a, (k, v)) # l2) (Node a) = Inr (k, v)"
    by (rule deref_split)
  show ?thesis
    by (simp add: subscript_def 1 3)
qed

text \<open>
  C8 (map facade, \<^verbatim>\<open>at\<close> and \<^verbatim>\<open>operator[]\<close>). In every reachable state of a map: \<^verbatim>\<open>at(k)\<close>
  fails with the out-of-range error when \<open>k\<close> is absent and returns the mapped value of \<open>k\<close>
  when it is present, so it fails exactly for absent keys; \<^verbatim>\<open>operator[]\<close> never fails: for an
  absent key it appends \<open>k\<close> with the default mapped value at the back and returns a reference
  to that value, for a present key it returns a reference to the existing value and leaves
  the state unchanged; assigning through the returned reference makes \<^verbatim>\<open>at(k)\<close> return the
  assigned value. The example: on an empty map (default mapped value 0), \<^verbatim>\<open>m[k] = 1\<close> creates
  \<open>k\<close>, \<^verbatim>\<open>m.at(k)\<close> returns 1, and after \<^verbatim>\<open>m.erase(k)\<close> the call \<^verbatim>\<open>m.at(k)\<close> fails.
\<close>

theorem C8_at_and_subscript:
  assumes "run fst ops (t0, init t0, h0) = Inr (this, c, h)"
  shows "(count_f c k = 0 \<longrightarrow> at this c k = Inl OutOfRange)
       \<and> (0 < count_f c k \<longrightarrow>
            (\<exists>es v. elements this c = Some (Inr es) \<and> (k, v) \<in> set es \<and> at this c k = Inr v))
       \<and> (count_f c k = 0 \<longrightarrow>
            (\<exists>es r c' h'.
                elements this c = Some (Inr es)
              \<and> subscript dflt this k (c, h) = Inr (r, c', h')
              \<and> elements this c' = Some (Inr (es @ [(k, dflt)]))
              \<and> load_mapped c' r = Inr dflt
              \<and> at this c' k = Inr dflt
              \<and> (\<forall>x. \<exists>c''. store_mapped c' r x = Inr c'' \<and> at this c'' k = Inr x)))
       \<and> (0 < count_f c k \<longrightarrow>
            (\<exists>r v. subscript dflt this k (c, h) = Inr (r, c, h)
              \<and> load_mapped c r = Inr v
              \<and> at this c k = Inr v
              \<and> (\<forall>x. \<exists>c''. store_mapped c r x = Inr c'' \<and> at this c'' k = Inr x)))
       \<and> (\<exists>r c1 h1 c2 c3.
              subscript (0::int) this' k' (init this', h1') = Inr (r, c1, h1)
            \<and> store_mapped c1 r 1 = Inr c2
            \<and> at this' c2 k' = Inr 1
            \<and> erase_key fst this' k' c2 = Inr c3
            \<and> at this' c3 k' = Inl OutOfRange)"
proof -
  define l where "l = list_f c"
  from run_reach [OF assms] have c: "c = mk fst this l" and s: "sane fst h l"
    by (simp_all add: l_def)
  have el: "elements this c = Some (Inr (map snd l))"
    using s by (simp add: c elements_mk sane_def)
  have present: "\<exists>a v. (k, v) \<in> set (map snd l) \<and> at this c k = Inr v
      \<and> subscript dflt this k (c, h) = Inr (Node a, c, h) \<and> load_mapped c (Node a) = Inr v
      \<and> (\<forall>x. \<exists>c''. store_mapped c (Node a) x = Inr c'' \<and> at this c'' k = Inr x)"
    if "0 < count_f c k"
  proof -
    from that have "k \<in> keys_of fst l"
      by (simp add: c count_f_mk split: if_splits)
    with s obtain l1 a e l2 where l: "l = l1 @ (a, e) # l2" and ke: "fst e = k"
      and k1: "k \<notin> (\<lambda>n. fst (snd n)) ` set l1"
      and a1: "a \<notin> fst ` set l1" and a2: "a \<notin> fst ` set l2"
      by (rule present_split)
    obtain v where e: "e = (k, v)" using ke by (cases e) simp
    have d: "distinct (map fst (l1 @ (a, (k, u)) # l2))" for u
      using s by (simp add: sane_def l)
    have 1: "(k, v) \<in> set (map snd l)"
      by (simp add: l e)
    have 2: "at this c k = Inr v"
      using at_split [OF d k1] by (simp add: c l e)
    have 3: "subscript dflt this k (c, h) = Inr (Node a, c, h)"
      using subscript_split [OF d k1] by (simp add: c l e)
    have 4: "load_mapped c (Node a) = Inr v"
      using deref_split [OF a1, of "(k, v)" l2] by (simp add: load_mapped_def c l e)
    have 5: "\<exists>c''. store_mapped c (Node a) x = Inr c'' \<and> at this c'' k = Inr x" for x
      using store_mapped_split [OF a1 a2, of this k v x] at_split [OF d k1]
      by (simp add: c l e)
    from 1 2 3 4 5 show ?thesis by blast
  qed
  have absent: "\<exists>r c' h'.
                subscript dflt this k (c, h) = Inr (r, c', h')
              \<and> elements this c' = Some (Inr (map snd l @ [(k, dflt)]))
              \<and> load_mapped c' r = Inr dflt
              \<and> at this c' k = Inr dflt
              \<and> (\<forall>x. \<exists>c''. store_mapped c' r x = Inr c'' \<and> at this c'' k = Inr x)"
    if "count_f c k = 0"
  proof -
    from that have nk: "k \<notin> keys_of fst l"
      by (simp add: c count_f_mk split: if_splits)
    then have k1: "k \<notin> (\<lambda>n. fst (snd n)) ` set l"
      by (simp add: keys_of_def)
    have s': "sane fst (Suc h) (l @ [(h, (k, u))])" for u
      using s k1 by (simp add: sane_snoc)
    then have d: "distinct (map fst (l @ (h, (k, u)) # []))" for u
      by (simp add: sane_def)
    have h1: "h \<notin> fst ` set l"
      using s by (auto simp: sane_def)
    have 1: "subscript dflt this k (c, h) = Inr (Node h, mk fst this (l @ [(h, (k, dflt))]), Suc h)"
      using subscript_absent [OF s nk] by (simp add: c)
    have 2: "elements this (mk fst this (l @ [(h, (k, dflt))])) = Some (Inr (map snd l @ [(k, dflt)]))"
      using d [of dflt] by (simp add: elements_mk)
    have 3: "load_mapped (mk fst this (l @ [(h, (k, dflt))])) (Node h) = Inr dflt"
      using deref_split [OF h1, of "(k, dflt)" "[]"] by (simp add: load_mapped_def)
    have 4: "at this (mk fst this (l @ [(h, (k, u))])) k = Inr u" for u
      using at_split [OF d k1] by simp
    have 5: "\<exists>c''. store_mapped (mk fst this (l @ [(h, (k, dflt))])) (Node h) x = Inr c''
                  \<and> at this c'' k = Inr x" for x
      using store_mapped_split [OF h1, of "[]" this k dflt x] 4 [of x]
      by simp
    from 1 2 3 4 [of dflt] 5 show ?thesis by blast
  qed
  have example: "\<exists>r c1 h1 c2 c3.
              subscript (0::int) this' k' (init this', h1') = Inr (r, c1, h1)
            \<and> store_mapped c1 r 1 = Inr c2
            \<and> at this' c2 k' = Inr 1
            \<and> erase_key fst this' k' c2 = Inr c3
            \<and> at this' c3 k' = Inl OutOfRange"
    by (simp add: subscript_def find_f_def store_mapped_def at_def eval_defs)
  from at_absent [of c k this] present absent el example show ?thesis
    by (simp only:) blast
qed


theorem C8_at_and_subscript_witness:
  "run fst [EmplaceBack (1::nat, 10::nat)] (0, init 0, 0)
     = Inr (0, \<lparr>map_f = [1 \<mapsto> BeforeBegin 0], list_f = [(0, (1, 10))], list_back = Node 0\<rparr>, 1)
   \<and> count_f \<lparr>map_f = [1::nat \<mapsto> BeforeBegin 0], list_f = [(0, (1::nat, 10::nat))],
               list_back = Node 0\<rparr> 2 = 0
   \<and> 0 < count_f \<lparr>map_f = [1::nat \<mapsto> BeforeBegin 0], list_f = [(0, (1::nat, 10::nat))],
               list_back = Node 0\<rparr> 1
   \<and> at 0 \<lparr>map_f = [1::nat \<mapsto> BeforeBegin 0], list_f = [(0, (1::nat, 10::nat))],
               list_back = Node 0\<rparr> 2 = Inl OutOfRange
   \<and> at 0 \<lparr>map_f = [1::nat \<mapsto> BeforeBegin 0], list_f = [(0, (1::nat, 10::nat))],
               list_back = Node 0\<rparr> 1 = Inr 10
   \<and> subscript 0 0 2 (\<lparr>map_f = [1::nat \<mapsto> BeforeBegin 0], list_f = [(0, (1::nat, 10::nat))],
               list_back = Node 0\<rparr>, 1)
       = Inr (Node 1, \<lparr>map_f = [1::nat \<mapsto> BeforeBegin 0, 2 \<mapsto> Node 0],
                        list_f = [(0, (1::nat, 10::nat)), (1, (2, 0))], list_back = Node 1\<rparr>, 2)
   \<and> subscript 0 0 1 (\<lparr>map_f = [1::nat \<mapsto> BeforeBegin 0], list_f = [(0, (1::nat, 10::nat))],
               list_back = Node 0\<rparr>, 1)
       = Inr (Node 0, \<lparr>map_f = [1::nat \<mapsto> BeforeBegin 0], list_f = [(0, (1::nat, 10::nat))],
               list_back = Node 0\<rparr>, 1)"
proof -
  have r: "run fst [EmplaceBack (1::nat, 10::nat)] (0, init 0, 0)
     = Inr (0, \<lparr>map_f = [1 \<mapsto> BeforeBegin 0], list_f = [(0, (1, 10))], list_back = Node 0\<rparr>, 1)"
    by (simp add: eval_defs)
  have a: "count_f \<lparr>map_f = [1::nat \<mapsto> BeforeBegin 0], list_f = [(0, (1::nat, 10::nat))],
               list_back = Node 0\<rparr> 2 = 0"
    and p: "0 < count_f \<lparr>map_f = [1::nat \<mapsto> BeforeBegin 0], list_f = [(0, (1::nat, 10::nat))],
               list_back = Node 0\<rparr> 1"
    by (simp_all add: count_f_def)
  have e: "at 0 \<lparr>map_f = [1::nat \<mapsto> BeforeBegin 0], list_f = [(0, (1::nat, 10::nat))],
               list_back = Node 0\<rparr> 1 = Inr 10"
    by (simp add: at_def eval_defs)
  have s2: "subscript 0 0 2 (\<lparr>map_f = [1::nat \<mapsto> BeforeBegin 0], list_f = [(0, (1::nat, 10::nat))],
               list_back = Node 0\<rparr>, 1)
       = Inr (Node 1, \<lparr>map_f = [1::nat \<mapsto> BeforeBegin 0, 2 \<mapsto> Node 0],
                        list_f = [(0, (1::nat, 10::nat)), (1, (2, 0))], list_back = Node 1\<rparr>, 2)"
    by (simp add: subscript_def find_f_def eval_defs)
  have s1: "subscript 0 0 1 (\<lparr>map_f = [1::nat \<mapsto> BeforeBegin 0], list_f = [(0, (1::nat, 10::nat))],
               list_back = Node 0\<rparr>, 1)
       = Inr (Node 0, \<lparr>map_f = [1::nat \<mapsto> BeforeBegin 0], list_f = [(0, (1::nat, 10::nat))],
               list_back = Node 0\<rparr>, 1)"
    by (simp add: subscript_def find_f_def eval_defs)
  from C8_at_and_subscript [OF r, where k = 2 and dflt = "0::nat" and this' = 0
      and k' = "0::nat" and h1' = 0] a
  have "at 0 \<lparr>map_f = [1::nat \<mapsto> BeforeBegin 0], list_f = [(0, (1::nat, 10::nat))],
               list_back = Node 0\<rparr> 2 = Inl OutOfRange"
    by blast
  with r a p e s1 s2 show ?thesis by simp
qed

lemma index_of_values:
  "index_of key_of p l k = Some q \<Longrightarrow> q = p \<or> (\<exists>b. q = Node b)"
proof (induction l arbitrary: p)
  case Nil
  then show ?case by simp
next
  case (Cons x l)
  obtain a e where x: "x = (a, e)" by (cases x)
  show ?case
  proof (cases "k = key_of e")
    case True
    with Cons.prems show ?thesis by (simp add: x)
  next
    case False
    with Cons.prems have "index_of key_of (Node a) l k = Some q"
      by (simp add: x)
    from Cons.IH [OF this] show ?thesis by auto
  qed
qed

lemma index_of_rebase:
  assumes "distinct (map (\<lambda>n. key_of (snd n)) l)"
  shows "index_of key_of (BeforeBegin t) l k
         = (if index_of key_of (BeforeBegin this) l k = Some (BeforeBegin this)
            then Some (BeforeBegin t) else index_of key_of (BeforeBegin this) l k)"
proof (cases l)
  case Nil
  then show ?thesis by simp
next
  case (Cons x l')
  obtain a e where x: "x = (a, e)" by (cases x)
  show ?thesis
  proof (cases "k = key_of e")
    case True
    then show ?thesis by (simp add: Cons x)
  next
    case False
    have "index_of key_of (Node a) l' k \<noteq> Some (BeforeBegin this)"
      using index_of_values [of key_of "Node a" l' k "BeforeBegin this"] by auto
    with False show ?thesis by (simp add: Cons x)
  qed
qed

lemma find_f_mk_this:
  assumes "sane key_of h l"
  shows "find_f t (mk key_of t l) k = find_f this (mk key_of this l) k"
proof (cases "k \<in> keys_of key_of l")
  case False
  then have "k \<notin> (\<lambda>n. key_of (snd n)) ` set l"
    by (simp add: keys_of_def)
  then show ?thesis
    by (simp add: find_f_absent)
next
  case True
  with assms obtain l1 a e l2 where l: "l = l1 @ (a, e) # l2" and ke: "key_of e = k"
    and k1: "k \<notin> (\<lambda>n. key_of (snd n)) ` set l1"
    by (rule present_split)
  from assms have d: "distinct (map fst (l1 @ (a, e) # l2))"
    by (simp add: sane_def l)
  from k1 ke have e1: "key_of e \<notin> (\<lambda>n. key_of (snd n)) ` set l1"
    by simp
  show ?thesis
    using find_f_split [OF d e1] by (simp add: l ke)
qed

lemma run_mk_observe:
  assumes "sane key_of h l"
  shows "map_sum id (\<lambda>(u, d, g). (list_f d, g)) (run key_of ops (this, mk key_of this l, h))
         = arun key_of ops (l, h)"
  by (simp add: run_mk [OF assms] split: sum.splits)

text \<open>
  C9 as claimed includes that I3, as the specification words it, holds in the moved-to
  container. It does not: after moving a container of two elements the tail of the new
  container is its second node, not the predecessor of that node.
\<close>

theorem C9_move_counterexample:
  "run (\<lambda>v. v) [EmplaceBack (1::nat), EmplaceBack 2] (0, init 0, 0)
     = Inr (0, \<lparr>map_f = [1 \<mapsto> BeforeBegin 0, 2 \<mapsto> Node 0], list_f = [(0, 1), (1, 2)],
                 list_back = Node 1\<rparr>, 2)
   \<and> move_construct (\<lambda>v. v) 7
         \<lparr>map_f = [1::nat \<mapsto> BeforeBegin 0, 2 \<mapsto> Node 0], list_f = [(0, 1::nat), (1, 2)],
            list_back = Node 1\<rparr>
       = Inr (\<lparr>map_f = [1::nat \<mapsto> BeforeBegin 7, 2 \<mapsto> Node 0], list_f = [(0, 1::nat), (1, 2)],
                list_back = Node 1\<rparr>,
              \<lparr>map_f = Map.empty, list_f = [], list_back = Node 1\<rparr>)
   \<and> \<not> I3_spec 7 \<lparr>map_f = [1::nat \<mapsto> BeforeBegin 7, 2 \<mapsto> Node 0], list_f = [(0, 1::nat), (1, 2)],
                list_back = Node 1\<rparr>"
  by (simp add: eval_defs I3_spec_def before_last_pos_def last_pos_def fun_eq_iff)

text \<open>
  C9, amended. Move construction of a container at address \<open>t\<close> from any reachable container
  succeeds. The order list is transferred with its nodes, the tail is transferred (or is the
  new before-begin position for an empty list), and the index is transferred with the entry
  of the first node repaired to the new before-begin position. The new container iterates
  the same sequence and has the same size; I2 holds in it, its tail is the position of its
  last node, which is its before-begin position exactly when it is empty; \<^verbatim>\<open>find\<close> and
  \<^verbatim>\<open>count\<close> give the same answers as on the source, and every further sequence of public
  operations has the same outcome (error, or order list with node addresses and heap) as it
  would have had on the source.
\<close>

theorem C9_move_construct:
  assumes "run key_of ops (t0, init t0, h0) = Inr (this, c, h)"
  shows "\<exists>c' other' es.
           move_construct key_of t c = Inr (c', other')
         \<and> list_f c' = list_f c
         \<and> list_back c' = (if list_f c = [] then BeforeBegin t else list_back c)
         \<and> (\<forall>k. map_f c' k = (if map_f c k = Some (BeforeBegin this) then Some (BeforeBegin t)
                               else map_f c k))
         \<and> elements this c = Some (Inr es) \<and> elements t c' = Some (Inr es)
         \<and> size_f c' = size_f c
         \<and> I2 key_of t c' \<and> I3_code t c'
         \<and> (list_back c' = BeforeBegin t \<longleftrightarrow> empty_f c')
         \<and> (\<forall>k. find_f t c' k = find_f this c k \<and> count_f c' k = count_f c k)
         \<and> (\<forall>ops'. map_sum id (\<lambda>(u, d, g). (list_f d, g)) (run key_of ops' (t, c', h))
                    = map_sum id (\<lambda>(u, d, g). (list_f d, g)) (run key_of ops' (this, c, h)))"
proof -
  define l where "l = list_f c"
  define c' where "c' = mk key_of t l"
  from run_reach [OF assms] have c: "c = mk key_of this l" and s: "sane key_of h l"
    by (simp_all add: l_def)
  from s have dk: "distinct (map (\<lambda>n. key_of (snd n)) l)" and da: "distinct (map fst l)"
    by (simp_all add: sane_def)
  have 1: "move_construct key_of t c = Inr (c', c\<lparr>map_f := Map.empty, list_f := []\<rparr>)"
    by (simp add: c c'_def move_construct_mk)
  have 2: "list_f c' = list_f c"
    by (simp add: c c'_def)
  have 3: "list_back c' = (if list_f c = [] then BeforeBegin t else list_back c)"
    using tail_of_nonempty [of l "BeforeBegin t" "BeforeBegin this"]
    by (simp add: c c'_def mk_def)
  have 4: "\<forall>k. map_f c' k = (if map_f c k = Some (BeforeBegin this) then Some (BeforeBegin t)
                               else map_f c k)"
    using index_of_rebase [OF dk, of t _ this] by (simp add: c c'_def mk_def)
  have 5: "elements this c = Some (Inr (map snd l))" "elements t c' = Some (Inr (map snd l))"
    using da by (simp_all add: c c'_def elements_mk)
  have 6: "size_f c' = size_f c"
    by (simp add: c c'_def size_f_mk [OF dk])
  have 7: "I2 key_of t c'" "I3_code t c'"
    by (simp_all add: c'_def I2_mk [OF s] I3_code_mk)
  have 8: "list_back c' = BeforeBegin t \<longleftrightarrow> empty_f c'"
    by (simp add: c'_def mk_def tail_of_sentinel empty_f_def dom_index_of)
  have 9: "\<forall>k. find_f t c' k = find_f this c k \<and> count_f c' k = count_f c k"
    by (simp add: c c'_def find_f_mk_this [OF s, of t _ this] count_f_mk)
  have 10: "\<forall>ops'. map_sum id (\<lambda>(u, d, g). (list_f d, g)) (run key_of ops' (t, c', h))
                    = map_sum id (\<lambda>(u, d, g). (list_f d, g)) (run key_of ops' (this, c, h))"
    by (simp only: c c'_def run_mk_observe [OF s]) simp
  from 1 2 3 4 5 6 7 8 9 10 show ?thesis by blast
qed


theorem C9_move_construct_witness:
  "run fst [EmplaceBack (1::nat, 10::nat), EmplaceBack (2, 20), EmplaceBack (3, 30), EraseKey 2]
       (0, init 0, 0)
     = Inr (0, \<lparr>map_f = [1 \<mapsto> BeforeBegin 0, 3 \<mapsto> Node 0],
                 list_f = [(0, (1, 10)), (2, (3, 30))], list_back = Node 2\<rparr>, 3)
   \<and> move_construct fst 7
         \<lparr>map_f = [1::nat \<mapsto> BeforeBegin 0, 3 \<mapsto> Node 0],
            list_f = [(0, (1::nat, 10::nat)), (2, (3, 30))], list_back = Node 2\<rparr>
       = Inr (\<lparr>map_f = [1::nat \<mapsto> BeforeBegin 7, 3 \<mapsto> Node 0],
                list_f = [(0, (1::nat, 10::nat)), (2, (3, 30))], list_back = Node 2\<rparr>,
              \<lparr>map_f = Map.empty, list_f = [], list_back = Node 2\<rparr>)
   \<and> elements 7 \<lparr>map_f = [1::nat \<mapsto> BeforeBegin 7, 3 \<mapsto> Node 0],
                list_f = [(0, (1::nat, 10::nat)), (2, (3, 30))], list_back = Node 2\<rparr>
       = Some (Inr [(1, 10), (3, 30)])
   \<and> size_f \<lparr>map_f = [1::nat \<mapsto> BeforeBegin 7, 3 \<mapsto> Node 0],
                list_f = [(0, (1::nat, 10::nat)), (2, (3, 30))], list_back = Node 2\<rparr>
       = size_f \<lparr>map_f = [1::nat \<mapsto> BeforeBegin 0, 3 \<mapsto> Node 0],
            list_f = [(0, (1::nat, 10::nat)), (2, (3, 30))], list_back = Node 2\<rparr>
   \<and> I2 fst 7 \<lparr>map_f = [1::nat \<mapsto> BeforeBegin 7, 3 \<mapsto> Node 0],
                list_f = [(0, (1::nat, 10::nat)), (2, (3, 30))], list_back = Node 2\<rparr>
   \<and> I3_code 7 \<lparr>map_f = [1::nat \<mapsto> BeforeBegin 7, 3 \<mapsto> Node 0],
                list_f = [(0, (1::nat, 10::nat)), (2, (3, 30))], list_back = Node 2\<rparr>"
proof -
  have r: "run fst [EmplaceBack (1::nat, 10::nat), EmplaceBack (2, 20), EmplaceBack (3, 30), EraseKey 2]
       (0, init 0, 0)
     = Inr (0, \<lparr>map_f = [1 \<mapsto> BeforeBegin 0, 3 \<mapsto> Node 0],
                 list_f = [(0, (1, 10)), (2, (3, 30))], list_back = Node 2\<rparr>, 3)"
    by (simp add: eval_defs fun_eq_iff)
  have m: "move_construct fst 7
         \<lparr>map_f = [1::nat \<mapsto> BeforeBegin 0, 3 \<mapsto> Node 0],
            list_f = [(0, (1::nat, 10::nat)), (2, (3, 30))], list_back = Node 2\<rparr>
       = Inr (\<lparr>map_f = [1::nat \<mapsto> BeforeBegin 7, 3 \<mapsto> Node 0],
                list_f = [(0, (1::nat, 10::nat)), (2, (3, 30))], list_back = Node 2\<rparr>,
              \<lparr>map_f = Map.empty, list_f = [], list_back = Node 2\<rparr>)"
    by (simp add: eval_defs fun_eq_iff)
  have e: "elements 0 \<lparr>map_f = [1::nat \<mapsto> BeforeBegin 0, 3 \<mapsto> Node 0],
            list_f = [(0, (1::nat, 10::nat)), (2, (3, 30))], list_back = Node 2\<rparr>
           = Some (Inr [(1, 10), (3, 30)])"
    by (simp add: elements_def iterate_from.simps eval_defs)
  from C9_move_construct [OF r, of 7] m e
  have "elements 7 \<lparr>map_f = [1::nat \<mapsto> BeforeBegin 7, 3 \<mapsto> Node 0],
                list_f = [(0, (1::nat, 10::nat)), (2, (3, 30))], list_back = Node 2\<rparr>
       = Some (Inr [(1, 10), (3, 30)])
   \<and> size_f \<lparr>map_f = [1::nat \<mapsto> BeforeBegin 7, 3 \<mapsto> Node 0],
                list_f = [(0, (1::nat, 10::nat)), (2, (3, 30))], list_back = Node 2\<rparr>
       = size_f \<lparr>map_f = [1::nat \<mapsto> BeforeBegin 0, 3 \<mapsto> Node 0],
            list_f = [(0, (1::nat, 10::nat)), (2, (3, 30))], list_back = Node 2\<rparr>
   \<and> I2 fst 7 \<lparr>map_f = [1::nat \<mapsto> BeforeBegin 7, 3 \<mapsto> Node 0],
                list_f = [(0, (1::nat, 10::nat)), (2, (3, 30))], list_back = Node 2\<rparr>
   \<and> I3_code 7 \<lparr>map_f = [1::nat \<mapsto> BeforeBegin 7, 3 \<mapsto> Node 0],
                list_f = [(0, (1::nat, 10::nat)), (2, (3, 30))], list_back = Node 2\<rparr>"
    by auto
  with r m show ?thesis by simp
qed

lemma copy_loop_End: "copy_loop this x End s = Some (Inr s)"
  by (subst copy_loop.simps) simp

lemma copy_loop_suffix:
  assumes "this \<noteq> x" "st x = mk (\<lambda>v. v) x (pre @ suf)"
    "distinct (map fst (pre @ suf))" "distinct (map snd (pre @ suf))"
    "st this = mk (\<lambda>v. v) this d" "sane (\<lambda>v. v) h d" "snd ` set suf \<inter> snd ` set d = {}"
  shows "\<exists>d'. copy_loop this x (list_begin suf) (st, h)
               = Some (Inr (st(this := mk (\<lambda>v. v) this (d @ d')), h + length suf))
             \<and> map snd d' = map snd suf \<and> sane (\<lambda>v. v) (h + length suf) (d @ d')"
  using assms
proof (induction suf arbitrary: pre st d h)
  case Nil
  have "st(this := mk (\<lambda>v. v) this d) = st"
    using Nil.prems(5) by auto
  with Nil.prems(6) show ?case
    by (intro exI [of _ "[]"]) (simp add: copy_loop_End)
next
  case (Cons y suf)
  obtain a e where y: "y = (a, e)" by (cases y)
  define st' where "st' = st(this := mk (\<lambda>v. v) this (d @ [(h, e)]))"
  have a1: "a \<notin> fst ` set pre"
    using Cons.prems(3) by (auto simp: y)
  have de: "deref (list_f (st x)) (Node a) = Inr e"
    using deref_split [OF a1, of e suf] by (simp add: Cons.prems(2) y)
  have nk: "e \<notin> keys_of (\<lambda>v. v) d"
    using Cons.prems(7) by (auto simp: y keys_of_def)
  have eb: "emplace_back (\<lambda>v. v) this e (st this, h)
            = Inr ((Node h, True), mk (\<lambda>v. v) this (d @ [(h, e)]), Suc h)"
    using emplace_back_mk_absent [OF Cons.prems(6) nk, of this] by (simp add: Cons.prems(5))
  have sx: "st' x = mk (\<lambda>v. v) x ((pre @ [y]) @ suf)"
    using Cons.prems(1,2) by (simp add: st'_def)
  have inc: "incr x (list_f (st' x)) (Node a) = Inr (list_begin suf)"
    using after_node_split [OF a1, of e suf] by (simp add: sx y incr_def)
  have step: "copy_loop this x (list_begin (y # suf)) (st, h)
              = copy_loop this x (list_begin suf) (st', Suc h)"
    using inc by (subst copy_loop.simps) (simp add: y de eb st'_def)
  have s1: "sane (\<lambda>v. v) (Suc h) (d @ [(h, e)])"
    using Cons.prems(6) nk by (simp add: sane_snoc keys_of_def)
  have i1: "snd ` set suf \<inter> snd ` set (d @ [(h, e)]) = {}"
    using Cons.prems(4,7) by (auto simp: y)
  have "\<exists>d'. copy_loop this x (list_begin suf) (st', Suc h)
               = Some (Inr (st'(this := mk (\<lambda>v. v) this ((d @ [(h, e)]) @ d')), Suc h + length suf))
             \<and> map snd d' = map snd suf \<and> sane (\<lambda>v. v) (Suc h + length suf) ((d @ [(h, e)]) @ d')"
    using Cons.prems(1,3,4) s1 i1 sx
    by (intro Cons.IH [of st' "pre @ [y]"]) (simp_all add: st'_def)
  then obtain d' where
    1: "copy_loop this x (list_begin suf) (st', Suc h)
        = Some (Inr (st'(this := mk (\<lambda>v. v) this ((d @ [(h, e)]) @ d')), Suc h + length suf))"
    and 2: "map snd d' = map snd suf"
    and 3: "sane (\<lambda>v. v) (Suc h + length suf) ((d @ [(h, e)]) @ d')"
    by blast
  have 4: "st'(this := mk (\<lambda>v. v) this ((d @ [(h, e)]) @ d'))
           = st(this := mk (\<lambda>v. v) this (d @ (h, e) # d'))"
    by (simp add: st'_def)
  have "copy_loop this x (list_begin (y # suf)) (st, h)
        = Some (Inr (st(this := mk (\<lambda>v. v) this (d @ (h, e) # d')), h + length (y # suf)))"
    unfolding step 1 4 by simp
  moreover have "map snd ((h, e) # d') = map snd (y # suf)"
    using 2 by (simp add: y)
  moreover have "sane (\<lambda>v. v) (h + length (y # suf)) (d @ (h, e) # d')"
    using 3 by simp
  ultimately show ?case by blast
qed

text \<open>
  C10 (copy assignment of the set facade). The assignment clears the destination and then
  runs the insertion loop over the source as the store then holds it. For self-assignment
  the loop finds the source already cleared: the call returns with the container empty
  (size 0, nothing to iterate), whatever it held before, and allocates nothing. For a
  destination other than the source, and a reachable source, the call returns with the
  source unchanged and the destination iterating the elements of the source in their
  order.
\<close>

theorem C10_copy_assign:
  "(\<exists>st'. copy_assign s s (st, h) = Some (Inr (st', h))
        \<and> st' s = clear s (st s)
        \<and> size_f (st' s) = 0
        \<and> elements s (st' s) = Some (Inr []))
   \<and> (this \<noteq> x \<and> run (\<lambda>v. v) ops (t0, init t0, h0) = Inr (x, st x, h) \<longrightarrow>
        (\<exists>es st' h'.
            elements x (st x) = Some (Inr es)
          \<and> copy_assign this x (st, h) = Some (Inr (st', h'))
          \<and> st' x = st x
          \<and> elements this (st' this) = Some (Inr es)))"
proof -
  have self: "\<exists>st'. copy_assign s s (st, h) = Some (Inr (st', h))
        \<and> st' s = clear s (st s)
        \<and> size_f (st' s) = 0
        \<and> elements s (st' s) = Some (Inr [])"
  proof -
    have 1: "copy_assign s s (st, h) = Some (Inr (st(s := clear s (st s)), h))"
      by (simp add: copy_assign_def clear_def copy_loop_End)
    have 2: "size_f (clear s (st s)) = 0"
      by (simp add: clear_def size_f_def)
    have 3: "elements s (clear s (st s)) = Some (Inr [])"
      by (simp add: clear_def elements_def iterate_from.simps)
    from 1 2 3 show ?thesis by simp
  qed
  have other: "\<exists>es st' h'.
            elements x (st x) = Some (Inr es)
          \<and> copy_assign this x (st, h) = Some (Inr (st', h'))
          \<and> st' x = st x
          \<and> elements this (st' this) = Some (Inr es)"
    if ne: "this \<noteq> x" and r: "run (\<lambda>v. v) ops (t0, init t0, h0) = Inr (x, st x, h)"
  proof -
    define l where "l = list_f (st x)"
    define st1 where "st1 = st(this := clear this (st this))"
    from run_reach [OF r] have c: "st x = mk (\<lambda>v. v) x l" and s: "sane (\<lambda>v. v) h l"
      by (simp_all add: l_def)
    from s have da: "distinct (map fst l)" and dv: "distinct (map snd l)"
      by (simp_all add: sane_def)
    have x1: "st1 x = mk (\<lambda>v. v) x ([] @ l)"
      using ne c by (simp add: st1_def)
    have t1: "st1 this = mk (\<lambda>v. v) this []"
      by (simp add: st1_def clear_mk [of this _ "\<lambda>v. v"])
    from copy_loop_suffix [OF ne x1 _ _ t1, of h] da dv
    obtain d' where 1: "copy_loop this x (list_begin l) (st1, h)
               = Some (Inr (st1(this := mk (\<lambda>v. v) this d'), h + length l))"
      and 2: "map snd d' = map snd l" and 3: "sane (\<lambda>v. v) (h + length l) d'"
      by auto
    have a: "elements x (st x) = Some (Inr (map snd l))"
      using da by (simp add: c elements_mk)
    have b0: "copy_assign this x (st, h)
              = copy_loop this x (list_begin (list_f (st1 x))) (st1, h)"
      unfolding copy_assign_def st1_def Let_def prod.case ..
    have b: "copy_assign this x (st, h) = Some (Inr (st1(this := mk (\<lambda>v. v) this d'), h + length l))"
      unfolding b0 using 1 x1 by simp
    have d: "(st1(this := mk (\<lambda>v. v) this d')) x = st x"
      using ne by (simp add: st1_def)
    have e: "elements this ((st1(this := mk (\<lambda>v. v) this d')) this) = Some (Inr (map snd l))"
      using 3 by (simp add: elements_mk sane_def 2)
    from a b d e show ?thesis by blast
  qed
  from self other show ?thesis by blast
qed


theorem C10_copy_assign_witness:
  "(6::nat) \<noteq> 5
   \<and> run (\<lambda>v. v) [EmplaceBack (1::nat), EmplaceBack 2] (5, init 5, 0)
       = Inr (5, ((\<lambda>a. init a)
                   (5 := \<lparr>map_f = [1 \<mapsto> BeforeBegin 5, 2 \<mapsto> Node 0], list_f = [(0, 1), (1, 2)],
                           list_back = Node 1\<rparr>)) 5, 2)
   \<and> size_f (((\<lambda>a. init a)
                   (5 := \<lparr>map_f = [1::nat \<mapsto> BeforeBegin 5, 2 \<mapsto> Node 0],
                           list_f = [(0, 1::nat), (1, 2)], list_back = Node 1\<rparr>)) 5) = 2
   \<and> (\<exists>st'. copy_assign 5 5
               ((\<lambda>a. init a)
                   (5 := \<lparr>map_f = [1::nat \<mapsto> BeforeBegin 5, 2 \<mapsto> Node 0],
                           list_f = [(0, 1::nat), (1, 2)], list_back = Node 1\<rparr>), 2)
             = Some (Inr (st', 2))
           \<and> size_f (st' 5) = 0 \<and> elements 5 (st' 5) = Some (Inr []))
   \<and> (\<exists>st' h'. copy_assign 6 5
               ((\<lambda>a. init a)
                   (5 := \<lparr>map_f = [1::nat \<mapsto> BeforeBegin 5, 2 \<mapsto> Node 0],
                           list_f = [(0, 1::nat), (1, 2)], list_back = Node 1\<rparr>), 2)
             = Some (Inr (st', h'))
           \<and> elements 6 (st' 6) = Some (Inr [1, 2]))"
proof -
  define st :: "nat store" where
    "st = (\<lambda>a. init a)
            (5 := \<lparr>map_f = [1 \<mapsto> BeforeBegin 5, 2 \<mapsto> Node 0], list_f = [(0, 1), (1, 2)],
                    list_back = Node 1\<rparr>)"
  have n: "(6::nat) \<noteq> 5" by simp
  have r: "run (\<lambda>v. v) [EmplaceBack (1::nat), EmplaceBack 2] (5, init 5, 0) = Inr (5, st 5, 2)"
    by (simp add: st_def eval_defs)
  have z: "size_f (st 5) = 2"
    by (simp add: st_def size_f_def)
  have e: "elements 5 (st 5) = Some (Inr [1, 2])"
    by (simp add: st_def elements_def iterate_from.simps eval_defs)
  note inst = C10_copy_assign [of 5 st 2 6 5 "[EmplaceBack 1, EmplaceBack 2]" 5 0]
  from inst have 1: "\<exists>st'. copy_assign 5 5 (st, 2) = Some (Inr (st', 2))
           \<and> size_f (st' 5) = 0 \<and> elements 5 (st' 5) = Some (Inr [])"
    by blast
  from inst n r e have 2: "\<exists>st' h'. copy_assign 6 5 (st, 2) = Some (Inr (st', h'))
           \<and> elements 6 (st' 6) = Some (Inr [1, 2])"
    by auto
  from n r z 1 2 show ?thesis
    unfolding st_def by blast
qed

end
